theory Spec2Isabelle
  imports Main "HOL-Library.Log_Nat"
begin

section \<open>Memory and the allocation strategy\<close>

text \<open>
  The vector of \<^verbatim>\<open>vector.h\<close> owns raw memory through \<^verbatim>\<open>T* data\<close> and reaches it only
  through its allocator member \<^verbatim>\<open>alloc\<close> and through plain reads and assignments of
  elements. Addresses are counted in elements; address \<open>0\<close> is \<^verbatim>\<open>nullptr\<close>, and
  \<^verbatim>\<open>data + i\<close> is \<open>data + i\<close>. The type \<^verbatim>\<open>size_t\<close> is read as \<open>nat\<close>: a count or a
  capacity never exceeds what \<open>allocate\<close> has granted, which is bounded by \<open>limit\<close>, so
  the products \<^verbatim>\<open>numCapacity * 2\<close> of the source do not wrap for any \<open>limit\<close> below
  \<open>2 ^ 63\<close>. The loops whose counter is declared \<^verbatim>\<open>int\<close> are a different matter and
  carry their bound (see \<open>for_loop_int\<close>).
\<close>

type_synonym addr = nat

datatype 'a cell = Raw | Live 'a

datatype error = BadAlloc | Fault

record 'a heap =
  cells :: "addr \<Rightarrow> 'a cell option"
  used :: nat
  limit :: nat
  n_alloc :: nat

record allocator =
  arena :: nat
  zero_is_null :: bool

definition ebind :: "error + 'x \<Rightarrow> ('x \<Rightarrow> error + 'y) \<Rightarrow> error + 'y" where
  "ebind m f = (case m of Inl e \<Rightarrow> Inl e | Inr x \<Rightarrow> f x)"

text \<open>
  The addresses handed out so far are \<open>1, \<dots>, used h\<close>; what \<open>cells\<close> says elsewhere
  does not count.
\<close>

definition cell_at :: "'a heap \<Rightarrow> addr \<Rightarrow> 'a cell option" where
  "cell_at h q = (if 0 < q \<and> q \<le> used h then cells h q else None)"

definition heap_init :: "nat \<Rightarrow> 'a heap" where
  "heap_init m = \<lparr>cells = (\<lambda>q. None), used = 0, limit = m, n_alloc = 0\<rparr>"

text \<open>
  Modelled from the spec: the allocation strategy \<^verbatim>\<open>A\<close> (by default \<^verbatim>\<open>std::allocator<T>\<close>,
  which is not part of the repository), with the four operations the spec names:
  allocate-raw, deallocate-raw, construct-in-place and destroy-in-place. A region is
  handed out at the first address never used before, so it is disjoint from every region
  still held; a request that does not fit below \<open>limit\<close> raises \<^verbatim>\<open>std::bad_alloc\<close>. What a
  request for zero elements answers is left open by the C++ standard (a unique non-null
  address with \<^verbatim>\<open>operator new\<close>, the null pointer with other run-time libraries): the
  allocator carries that choice as \<open>zero_is_null\<close>; a non-null answer to a request for
  zero elements takes up one address that holds no storage. \<open>n_alloc\<close> counts the regions
  handed out. Using storage that is not there (constructing outside a region, destroying or
  reading what is not a live object, releasing what is not allocated) is undefined
  behaviour in C++ and the value \<open>Inl Fault\<close> here.
\<close>

definition allocate :: "allocator \<Rightarrow> nat \<Rightarrow> 'a heap \<Rightarrow> error + (addr \<times> 'a heap)" where
  "allocate a n h =
     (if n = 0 \<and> zero_is_null a then Inr (0, h)
      else if limit h < used h + max n 1 then Inl BadAlloc
      else Inr (Suc (used h),
                h\<lparr>cells := (\<lambda>q. if used h < q \<and> q \<le> used h + n then Some Raw
                                 else if q = Suc (used h) then None else cells h q),
                  used := used h + max n 1,
                  n_alloc := Suc (n_alloc h)\<rparr>))"

definition deallocate :: "allocator \<Rightarrow> addr \<Rightarrow> nat \<Rightarrow> 'a heap \<Rightarrow> error + 'a heap" where
  "deallocate a p n h =
     (if list_all (\<lambda>i. cell_at h (p + i) \<noteq> None) [0..<n]
      then Inr (h\<lparr>cells := (\<lambda>q. if p \<le> q \<and> q < p + n then None else cells h q)\<rparr>)
      else Inl Fault)"

definition construct :: "allocator \<Rightarrow> addr \<Rightarrow> 'a \<Rightarrow> 'a heap \<Rightarrow> error + 'a heap" where
  "construct a p x h =
     (case cell_at h p of
        None \<Rightarrow> Inl Fault
      | Some c \<Rightarrow> Inr (h\<lparr>cells := (cells h)(p \<mapsto> Live x)\<rparr>))"

definition destroy :: "allocator \<Rightarrow> addr \<Rightarrow> 'a heap \<Rightarrow> error + 'a heap" where
  "destroy a p h =
     (case cell_at h p of
        Some (Live x) \<Rightarrow> Inr (h\<lparr>cells := (cells h)(p \<mapsto> Raw)\<rparr>)
      | Some Raw \<Rightarrow> Inl Fault
      | None \<Rightarrow> Inl Fault)"

text \<open>Reading \<^verbatim>\<open>*p\<close> and assigning \<^verbatim>\<open>*p = x\<close> need a live object at \<open>p\<close>.\<close>

definition load :: "'a heap \<Rightarrow> addr \<Rightarrow> error + 'a" where
  "load h p =
     (case cell_at h p of
        Some (Live x) \<Rightarrow> Inr x
      | Some Raw \<Rightarrow> Inl Fault
      | None \<Rightarrow> Inl Fault)"

definition store :: "addr \<Rightarrow> 'a \<Rightarrow> 'a heap \<Rightarrow> error + 'a heap" where
  "store p x h =
     (case cell_at h p of
        Some (Live y) \<Rightarrow> Inr (h\<lparr>cells := (cells h)(p \<mapsto> Live x)\<rparr>)
      | Some Raw \<Rightarrow> Inl Fault
      | None \<Rightarrow> Inl Fault)"

text \<open>
  \<^verbatim>\<open>for (size_t i = lo; i < n; i++) body\<close>, the body acting on the heap and possibly
  failing.
\<close>

function for_loop :: "nat \<Rightarrow> nat \<Rightarrow> (nat \<Rightarrow> 's \<Rightarrow> error + 's) \<Rightarrow> 's \<Rightarrow> error + 's" where
  "for_loop i n body s =
     (if i < n
      then (case body i s of Inl e \<Rightarrow> Inl e | Inr s' \<Rightarrow> for_loop (Suc i) n body s')
      else Inr s)"
  by pat_completeness auto
termination
  by (relation "measure (\<lambda>(i, n, body, s). n - i)") auto

declare for_loop.simps [simp del]

text \<open>
  \<^verbatim>\<open>for (int i = 0; i < n; i++) body\<close> with \<open>n\<close> a \<^verbatim>\<open>size_t\<close>: the comparison converts
  \<open>i\<close> to unsigned, and with \<open>n\<close> above \<^verbatim>\<open>INT_MAX\<close> the increment overflows the signed
  counter, which is undefined behaviour.
\<close>

definition INT_MAX :: nat where
  "INT_MAX = 2147483647"

definition for_loop_int :: "nat \<Rightarrow> (nat \<Rightarrow> 's \<Rightarrow> error + 's) \<Rightarrow> 's \<Rightarrow> error + 's" where
  "for_loop_int n body s = (if INT_MAX < n then Inl Fault else for_loop 0 n body s)"

section \<open>The vector\<close>

record vector =
  alloc :: allocator
  data :: addr
  numCapacity :: nat
  numElements :: nat

subsection \<open>Status\<close>

definition size_v :: "vector \<Rightarrow> nat" where
  "size_v v = numElements v"

definition capacity :: "vector \<Rightarrow> nat" where
  "capacity v = numCapacity v"

definition empty_v :: "vector \<Rightarrow> bool" where
  "empty_v v = (numElements v = 0)"

subsection \<open>Iterators\<close>

datatype iterator = Iterator (ptr: addr)

definition begin_it :: "vector \<Rightarrow> iterator" where
  "begin_it v = Iterator (data v)"

definition end_it :: "vector \<Rightarrow> iterator" where
  "end_it v = Iterator (data v + numElements v)"

definition it_eq :: "iterator \<Rightarrow> iterator \<Rightarrow> bool" where
  "it_eq a b = (ptr a = ptr b)"

definition it_neq :: "iterator \<Rightarrow> iterator \<Rightarrow> bool" where
  "it_neq a b = (ptr a \<noteq> ptr b)"

subsection \<open>Construction and destruction\<close>

definition vector_default :: "allocator \<Rightarrow> vector" where
  "vector_default a = \<lparr>alloc = a, data = 0, numCapacity = 0, numElements = 0\<rparr>"

definition vector_fill :: "nat \<Rightarrow> 'a \<Rightarrow> allocator \<Rightarrow> 'a heap \<Rightarrow> error + (vector \<times> 'a heap)" where
  "vector_fill num t a h =
     ebind (allocate a num h) (\<lambda>(d, h1).
     ebind (for_loop_int num (\<lambda>i. construct a (d + i) t) h1) (\<lambda>h2.
     Inr (\<lparr>alloc = a, data = d, numCapacity = num, numElements = num\<rparr>, h2)))"

text \<open>The initializer list is the list of its values; \<^verbatim>\<open>current\<close> walks the buffer.\<close>

fun construct_list :: "allocator \<Rightarrow> addr \<Rightarrow> 'a list \<Rightarrow> 'a heap \<Rightarrow> error + 'a heap" where
  "construct_list a current [] h = Inr h"
| "construct_list a current (x # xs) h =
     ebind (construct a current x h) (construct_list a (Suc current) xs)"

definition vector_init_list :: "'a list \<Rightarrow> allocator \<Rightarrow> 'a heap \<Rightarrow> error + (vector \<times> 'a heap)" where
  "vector_init_list l a h =
     ebind (allocate a (length l) h) (\<lambda>(d, h1).
     ebind (construct_list a d l h1) (\<lambda>h2.
     Inr (\<lparr>alloc = a, data = d, numCapacity = length l, numElements = length l\<rparr>, h2)))"

text \<open>
  \<^verbatim>\<open>alloc.construct(data + i)\<close> value-initialises the element; \<open>dflt\<close> is that value
  \<^verbatim>\<open>T()\<close>.
\<close>

definition vector_sized :: "'a \<Rightarrow> nat \<Rightarrow> allocator \<Rightarrow> 'a heap \<Rightarrow> error + (vector \<times> 'a heap)" where
  "vector_sized dflt num a h =
     ebind (allocate a num h) (\<lambda>(d, h1).
     ebind (for_loop_int num (\<lambda>i. construct a (d + i) dflt) h1) (\<lambda>h2.
     Inr (\<lparr>alloc = a, data = d, numCapacity = num, numElements = num\<rparr>, h2)))"

text \<open>
  \<open>copy_from\<close> is the loop body \<^verbatim>\<open>alloc.construct(data + i, rhs.data[i])\<close> of the copy
  constructor and of copy assignment; \<open>assign_from\<close>, further down, is
  \<^verbatim>\<open>data[i] = rhs.data[i]\<close>.
\<close>

definition copy_from :: "allocator \<Rightarrow> addr \<Rightarrow> addr \<Rightarrow> nat \<Rightarrow> 'a heap \<Rightarrow> error + 'a heap" where
  "copy_from a dst src i h = ebind (load h (src + i)) (\<lambda>x. construct a (dst + i) x h)"

text \<open>
  The copy and the move constructor have no initialiser for \<^verbatim>\<open>alloc\<close>: the member is
  default-constructed. \<open>a0\<close> is that value \<^verbatim>\<open>A()\<close>.
\<close>

definition vector_copy :: "allocator \<Rightarrow> vector \<Rightarrow> 'a heap \<Rightarrow> error + (vector \<times> 'a heap)" where
  "vector_copy a0 rhs h =
     (if \<not> empty_v rhs then
        ebind (allocate a0 (numElements rhs) h) (\<lambda>(d, h1).
        ebind (for_loop_int (numElements rhs) (copy_from a0 d (data rhs)) h1) (\<lambda>h2.
        Inr (\<lparr>alloc = a0, data = d, numCapacity = numElements rhs,
              numElements = numElements rhs\<rparr>, h2)))
      else Inr (\<lparr>alloc = a0, data = 0, numCapacity = 0, numElements = 0\<rparr>, h))"

text \<open>The move constructor answers the new vector and the source as it is left.\<close>

definition vector_move :: "allocator \<Rightarrow> vector \<Rightarrow> vector \<times> vector" where
  "vector_move a0 rhs =
     (\<lparr>alloc = a0, data = data rhs, numCapacity = numCapacity rhs,
       numElements = numElements rhs\<rparr>,
      rhs\<lparr>data := 0, numElements := 0, numCapacity := 0\<rparr>)"

definition vector_destroy :: "vector \<Rightarrow> 'a heap \<Rightarrow> error + 'a heap" where
  "vector_destroy v h =
     ebind (for_loop_int (numElements v) (\<lambda>i. destroy (alloc v) (data v + i)) h) (\<lambda>h1.
     deallocate (alloc v) (data v) (numCapacity v) h1)"

subsection \<open>Access\<close>

definition subscript :: "vector \<Rightarrow> nat \<Rightarrow> 'a heap \<Rightarrow> error + 'a" where
  "subscript v index h = load h (data v + index)"


definition front :: "vector \<Rightarrow> 'a heap \<Rightarrow> error + 'a" where
  "front v h = load h (data v)"

text \<open>
  \<^verbatim>\<open>data[numElements - 1]\<close>: with no element the index wraps to \<^verbatim>\<open>SIZE_MAX\<close> and the
  access is outside every buffer.
\<close>

definition back_v :: "vector \<Rightarrow> 'a heap \<Rightarrow> error + 'a" where
  "back_v v h = (if numElements v = 0 then Inl Fault else load h (data v + numElements v - 1))"

subsection \<open>Remove\<close>

definition clear :: "vector \<Rightarrow> 'a heap \<Rightarrow> error + (vector \<times> 'a heap)" where
  "clear v h =
     ebind (for_loop 0 (numElements v) (\<lambda>i. destroy (alloc v) (data v + i)) h) (\<lambda>h1.
     Inr (v\<lparr>numElements := 0\<rparr>, h1))"

definition pop_back :: "vector \<Rightarrow> 'a heap \<Rightarrow> error + (vector \<times> 'a heap)" where
  "pop_back v h =
     (if numElements v \<noteq> 0 then
        ebind (destroy (alloc v) (data v + numElements v - 1) h) (\<lambda>h1.
        Inr (v\<lparr>numElements := numElements v - 1\<rparr>, h1))
      else Inr (v, h))"

subsection \<open>Capacity\<close>

text \<open>
  \<open>relocate\<close> is the loop body shared by \<open>reserve\<close> (which moves the element) and
  \<open>shrink_to_fit\<close> (which copies it): construct at the new place from the old element,
  then destroy the old one.
\<close>

definition relocate :: "allocator \<Rightarrow> addr \<Rightarrow> addr \<Rightarrow> nat \<Rightarrow> 'a heap \<Rightarrow> error + 'a heap" where
  "relocate a dst src i h =
     ebind (load h (src + i)) (\<lambda>x.
     ebind (construct a (dst + i) x h) (\<lambda>h1.
     destroy a (src + i) h1))"

definition reserve :: "vector \<Rightarrow> nat \<Rightarrow> 'a heap \<Rightarrow> error + (vector \<times> 'a heap)" where
  "reserve v newCapacity h =
     (if newCapacity \<le> numCapacity v then Inr (v, h)
      else
        ebind (allocate (alloc v) newCapacity h) (\<lambda>(dataNew, h1).
        ebind (for_loop 0 (numElements v) (relocate (alloc v) dataNew (data v)) h1) (\<lambda>h2.
        ebind (deallocate (alloc v) (data v) (numCapacity v) h2) (\<lambda>h3.
        Inr (v\<lparr>data := dataNew, numCapacity := newCapacity\<rparr>, h3)))))"

definition shrink_to_fit :: "vector \<Rightarrow> 'a heap \<Rightarrow> error + (vector \<times> 'a heap)" where
  "shrink_to_fit v h =
     (if numCapacity v > numElements v then
        if numElements v > 0 then
          ebind (allocate (alloc v) (numElements v) h) (\<lambda>(newData, h1).
          ebind (for_loop 0 (numElements v) (relocate (alloc v) newData (data v)) h1) (\<lambda>h2.
          ebind (deallocate (alloc v) (data v) (numCapacity v) h2) (\<lambda>h3.
          Inr (v\<lparr>data := newData, numCapacity := numElements v\<rparr>, h3))))
        else
          ebind (deallocate (alloc v) (data v) (numCapacity v) h) (\<lambda>h1.
          Inr (v\<lparr>data := 0, numCapacity := 0\<rparr>, h1))
      else Inr (v, h))"

subsection \<open>Insert\<close>

text \<open>
  Both overloads of \<^verbatim>\<open>push_back\<close> have the same text up to \<^verbatim>\<open>std::move\<close>. The
  argument is the value of the element: a reference to an element of the vector's own
  buffer, which \<^verbatim>\<open>reserve\<close> would release before the element is constructed, is not
  covered.
\<close>

definition push_back :: "vector \<Rightarrow> 'a \<Rightarrow> 'a heap \<Rightarrow> error + (vector \<times> 'a heap)" where
  "push_back v t h =
     ebind (if numCapacity v = numElements v
            then reserve v (if numCapacity v \<noteq> 0 then numCapacity v * 2 else 1) h
            else Inr (v, h)) (\<lambda>(v1, h1).
     ebind (construct (alloc v1) (data v1 + numElements v1) t h1) (\<lambda>h2.
     Inr (v1\<lparr>numElements := numElements v1 + 1\<rparr>, h2)))"

definition push_back_move :: "vector \<Rightarrow> 'a \<Rightarrow> 'a heap \<Rightarrow> error + (vector \<times> 'a heap)" where
  "push_back_move v t h =
     ebind (if numCapacity v = numElements v
            then reserve v (if numCapacity v \<noteq> 0 then numCapacity v * 2 else 1) h
            else Inr (v, h)) (\<lambda>(v1, h1).
     ebind (construct (alloc v1) (data v1 + numElements v1) t h1) (\<lambda>h2.
     Inr (v1\<lparr>numElements := numElements v1 + 1\<rparr>, h2)))"

text \<open>
  \<^verbatim>\<open>resize(newElements, t)\<close>; the overload without \<open>t\<close> is the same text with a
  value-initialised element, so it is \<open>resize_fill\<close> at \<^verbatim>\<open>T()\<close>.
\<close>

definition resize_fill :: "vector \<Rightarrow> nat \<Rightarrow> 'a \<Rightarrow> 'a heap \<Rightarrow> error + (vector \<times> 'a heap)" where
  "resize_fill v newElements t h =
     ebind (if newElements < numElements v then
              ebind (for_loop newElements (numElements v) (\<lambda>i. destroy (alloc v) (data v + i)) h)
                (\<lambda>h1. Inr (v, h1))
            else if newElements > numElements v then
              ebind (if newElements > numCapacity v then reserve v newElements h else Inr (v, h))
                (\<lambda>(v1, h1).
              ebind (for_loop (numElements v1) newElements
                       (\<lambda>i. construct (alloc v1) (data v1 + i) t) h1)
                (\<lambda>h2. Inr (v1, h2)))
            else Inr (v, h)) (\<lambda>(v2, h2).
     Inr (v2\<lparr>numElements := newElements\<rparr>, h2))"

definition resize :: "'a \<Rightarrow> vector \<Rightarrow> nat \<Rightarrow> 'a heap \<Rightarrow> error + (vector \<times> 'a heap)" where
  "resize dflt v newElements h = resize_fill v newElements dflt h"

subsection \<open>Assign\<close>

text \<open>\<^verbatim>\<open>swap\<close> answers the receiver and the argument as they are left.\<close>

definition swap_v :: "vector \<Rightarrow> vector \<Rightarrow> vector \<times> vector" where
  "swap_v v rhs =
     (v\<lparr>data := data rhs, numElements := numElements rhs, numCapacity := numCapacity rhs,
        alloc := alloc rhs\<rparr>,
      rhs\<lparr>data := data v, numElements := numElements v, numCapacity := numCapacity v,
          alloc := alloc v\<rparr>)"

definition assign_from :: "addr \<Rightarrow> addr \<Rightarrow> nat \<Rightarrow> 'a heap \<Rightarrow> error + 'a heap" where
  "assign_from dst src i h = ebind (load h (src + i)) (\<lambda>x. store (dst + i) x h)"

text \<open>
  Copy assignment. \<open>this_is_rhs\<close> is the outcome of the test \<^verbatim>\<open>this == &rhs\<close>; when it
  holds the two vectors are one object and nothing is done.
\<close>

definition assign_copy :: "bool \<Rightarrow> vector \<Rightarrow> vector \<Rightarrow> 'a heap \<Rightarrow> error + (vector \<times> 'a heap)" where
  "assign_copy this_is_rhs v rhs h =
     (if \<not> this_is_rhs then
        ebind (if numCapacity v < numElements rhs then
                 ebind (for_loop 0 (numElements v) (\<lambda>i. destroy (alloc v) (data v + i)) h) (\<lambda>h1.
                 ebind (if data v \<noteq> 0 then deallocate (alloc v) (data v) (numCapacity v) h1
                        else Inr h1) (\<lambda>h2.
                 ebind (allocate (alloc v) (numElements rhs) h2) (\<lambda>(d, h3).
                 ebind (for_loop 0 (numElements rhs) (copy_from (alloc v) d (data rhs)) h3) (\<lambda>h4.
                 Inr (v\<lparr>numCapacity := numElements rhs, data := d\<rparr>, h4)))))
               else
                 ebind (for_loop 0 (min (numElements rhs) (numElements v))
                          (assign_from (data v) (data rhs)) h) (\<lambda>h1.
                 ebind (if numElements rhs < numElements v then
                          for_loop (numElements rhs) (numElements v)
                            (\<lambda>i. destroy (alloc v) (data v + i)) h1
                        else if numElements rhs > numElements v then
                          for_loop (numElements v) (numElements rhs)
                            (copy_from (alloc v) (data v) (data rhs)) h1
                        else Inr h1) (\<lambda>h2.
                 Inr (v, h2)))) (\<lambda>(v1, h1).
        Inr (v1\<lparr>numElements := numElements rhs\<rparr>, h1))
      else Inr (v, h))"

text \<open>
  Move assignment, for a source that is another object than the receiver: it answers the
  receiver, the source as it is left, and the heap.
\<close>

definition assign_move :: "vector \<Rightarrow> vector \<Rightarrow> 'a heap \<Rightarrow> error + (vector \<times> vector \<times> 'a heap)" where
  "assign_move v rhs h =
     ebind (clear v h) (\<lambda>(v1, h1).
     ebind (shrink_to_fit v1 h1) (\<lambda>(v2, h2).
     (case swap_v v2 rhs of (v3, rhs') \<Rightarrow> Inr (v3, rhs', h2))))"

section \<open>The stack\<close>

record stack =
  container :: vector

definition stack_default :: "allocator \<Rightarrow> stack" where
  "stack_default a0 = \<lparr>container = vector_default a0\<rparr>"

definition stack_top :: "stack \<Rightarrow> 'a heap \<Rightarrow> error + 'a" where
  "stack_top s h = back_v (container s) h"

definition stack_push :: "stack \<Rightarrow> 'a \<Rightarrow> 'a heap \<Rightarrow> error + (stack \<times> 'a heap)" where
  "stack_push s t h = ebind (push_back (container s) t h) (\<lambda>(c, h1). Inr (s\<lparr>container := c\<rparr>, h1))"

definition stack_push_move :: "stack \<Rightarrow> 'a \<Rightarrow> 'a heap \<Rightarrow> error + (stack \<times> 'a heap)" where
  "stack_push_move s t h =
     ebind (push_back_move (container s) t h) (\<lambda>(c, h1). Inr (s\<lparr>container := c\<rparr>, h1))"

definition stack_pop :: "stack \<Rightarrow> 'a heap \<Rightarrow> error + (stack \<times> 'a heap)" where
  "stack_pop s h = ebind (pop_back (container s) h) (\<lambda>(c, h1). Inr (s\<lparr>container := c\<rparr>, h1))"

definition stack_size :: "stack \<Rightarrow> nat" where
  "stack_size s = size_v (container s)"

definition stack_empty :: "stack \<Rightarrow> bool" where
  "stack_empty s = empty_v (container s)"

section \<open>Specification vocabulary\<close>

subsection \<open>The representation invariant\<close>

text \<open>
  \<open>I1\<close>: the positions \<open>[0, count)\<close> hold live objects and the positions
  \<open>[count, capacity)\<close> hold raw storage. \<open>I2\<close>: the buffer is null exactly when the
  capacity is zero.
\<close>

definition is_live :: "'a heap \<Rightarrow> addr \<Rightarrow> bool" where
  "is_live h q = (case cell_at h q of Some (Live x) \<Rightarrow> True | Some Raw \<Rightarrow> False | None \<Rightarrow> False)"

definition is_raw :: "'a heap \<Rightarrow> addr \<Rightarrow> bool" where
  "is_raw h q = (case cell_at h q of Some (Live x) \<Rightarrow> False | Some Raw \<Rightarrow> True | None \<Rightarrow> False)"

definition I1 :: "vector \<Rightarrow> 'a heap \<Rightarrow> bool" where
  "I1 v h \<longleftrightarrow>
     list_all (\<lambda>i. is_live h (data v + i)) [0..<numElements v] \<and>
     list_all (\<lambda>i. is_raw h (data v + i)) [numElements v..<numCapacity v]"

definition I2 :: "vector \<Rightarrow> bool" where
  "I2 v \<longleftrightarrow> (data v = 0) = (numCapacity v = 0)"

definition invariant :: "vector \<Rightarrow> 'a heap \<Rightarrow> bool" where
  "invariant v h \<longleftrightarrow> numElements v \<le> numCapacity v \<and> I1 v h \<and> I2 v"

text \<open>Two vectors whose buffers do not overlap.\<close>

definition separate :: "vector \<Rightarrow> vector \<Rightarrow> bool" where
  "separate v w \<longleftrightarrow>
     numCapacity v = 0 \<or> numCapacity w = 0 \<or>
     data v + numCapacity v \<le> data w \<or> data w + numCapacity w \<le> data v"

definition same_meta :: "'a heap \<Rightarrow> 'a heap \<Rightarrow> bool" where
  "same_meta h h' \<longleftrightarrow> used h' = used h \<and> limit h' = limit h \<and> n_alloc h' = n_alloc h"

subsection \<open>Observing a result\<close>

definition the_vector :: "error + (vector \<times> 'a heap) \<Rightarrow> vector option" where
  "the_vector r = (case r of Inl e \<Rightarrow> None | Inr (v, h) \<Rightarrow> Some v)"

definition the_heap :: "error + (vector \<times> 'a heap) \<Rightarrow> 'a heap option" where
  "the_heap r = (case r of Inl e \<Rightarrow> None | Inr (v, h) \<Rightarrow> Some h)"

subsection \<open>Sequences of insertions\<close>

text \<open>
  \<open>grown\<close> is the capacity \<^verbatim>\<open>push_back\<close> asks for when the buffer is full; \<open>push_all\<close>
  is one \<^verbatim>\<open>push_back\<close> call per value, in order. After \<open>n\<close> calls on an empty vector
  the capacity is \<open>cap_after n\<close> and \<open>reallocs n\<close> regions have been obtained.
\<close>

definition grown :: "nat \<Rightarrow> nat" where
  "grown c = (if c \<noteq> 0 then c * 2 else 1)"

fun push_all :: "vector \<Rightarrow> 'a list \<Rightarrow> 'a heap \<Rightarrow> error + (vector \<times> 'a heap)" where
  "push_all v [] h = Inr (v, h)"
| "push_all v (t # ts) h = ebind (push_back v t h) (\<lambda>(v1, h1). push_all v1 ts h1)"

definition reallocs :: "nat \<Rightarrow> nat" where
  "reallocs n = (if n = 0 then 0 else ceillog2 n + 1)"

definition cap_after :: "nat \<Rightarrow> nat" where
  "cap_after n = (if n = 0 then 0 else 2 ^ ceillog2 n)"

subsection \<open>The stack scenario\<close>

text \<open>
  The calls \<^verbatim>\<open>push(1)\<close>, \<^verbatim>\<open>push(2)\<close>, \<^verbatim>\<open>push(3)\<close> pass temporaries, so overload
  resolution takes \<^verbatim>\<open>push(T&&)\<close> and with it \<^verbatim>\<open>push_back(T&&)\<close>: \<open>stack_scenario\<close>
  runs through \<open>stack_push_move\<close>. \<open>stack_scenario_copy\<close> is the same sequence with the
  values passed as named objects, which takes \<^verbatim>\<open>push(const T&)\<close>.
\<close>

definition stack_scenario ::
  "allocator \<Rightarrow> int heap \<Rightarrow> error + ((nat \<times> int) \<times> (nat \<times> int) \<times> bool)" where
  "stack_scenario a0 h0 =
     ebind (stack_push_move (stack_default a0) 1 h0) (\<lambda>(s1, h1).
     ebind (stack_push_move s1 2 h1) (\<lambda>(s2, h2).
     ebind (stack_push_move s2 3 h2) (\<lambda>(s3, h3).
     ebind (stack_top s3 h3) (\<lambda>t3.
     ebind (stack_pop s3 h3) (\<lambda>(s4, h4).
     ebind (stack_top s4 h4) (\<lambda>t4.
     ebind (stack_pop s4 h4) (\<lambda>(s5, h5).
     ebind (stack_pop s5 h5) (\<lambda>(s6, h6).
     Inr ((stack_size s3, t3), (stack_size s4, t4), stack_empty s6)))))))))"

definition stack_scenario_copy ::
  "allocator \<Rightarrow> int heap \<Rightarrow> error + ((nat \<times> int) \<times> (nat \<times> int) \<times> bool)" where
  "stack_scenario_copy a0 h0 =
     ebind (stack_push (stack_default a0) 1 h0) (\<lambda>(s1, h1).
     ebind (stack_push s1 2 h1) (\<lambda>(s2, h2).
     ebind (stack_push s2 3 h2) (\<lambda>(s3, h3).
     ebind (stack_top s3 h3) (\<lambda>t3.
     ebind (stack_pop s3 h3) (\<lambda>(s4, h4).
     ebind (stack_top s4 h4) (\<lambda>t4.
     ebind (stack_pop s4 h4) (\<lambda>(s5, h5).
     ebind (stack_pop s5 h5) (\<lambda>(s6, h6).
     Inr ((stack_size s3, t3), (stack_size s4, t4), stack_empty s6)))))))))"

subsection \<open>Move assignment, as the spec words it\<close>

text \<open>
  The second definition of move assignment follows the spec's words: release the
  receiver's own resources (destroy each live element in index order, then release the
  raw region if it is not null), adopt the source's buffer, count and capacity, and leave
  the source in the empty state. \<open>observe_move\<close> is what a caller can tell of the outcome:
  buffer, size and capacity of both vectors, and the heap.
\<close>

definition release :: "vector \<Rightarrow> 'a heap \<Rightarrow> error + 'a heap" where
  "release v h =
     ebind (for_loop 0 (numElements v) (\<lambda>i. destroy (alloc v) (data v + i)) h) (\<lambda>h1.
     if data v \<noteq> 0 then deallocate (alloc v) (data v) (numCapacity v) h1 else Inr h1)"

definition assign_move_spec ::
  "vector \<Rightarrow> vector \<Rightarrow> 'a heap \<Rightarrow> error + (vector \<times> vector \<times> 'a heap)" where
  "assign_move_spec v rhs h =
     ebind (release v h) (\<lambda>h1.
     Inr (v\<lparr>data := data rhs, numElements := numElements rhs, numCapacity := numCapacity rhs\<rparr>,
          rhs\<lparr>data := 0, numElements := 0, numCapacity := 0\<rparr>,
          h1))"

definition observe_move ::
  "error + (vector \<times> vector \<times> 'a heap) \<Rightarrow>
   error + ((addr \<times> nat \<times> nat) \<times> (addr \<times> nat \<times> nat) \<times>
            ((addr \<Rightarrow> 'a cell option) \<times> nat \<times> nat \<times> nat))" where
  "observe_move r =
     (case r of
        Inl e \<Rightarrow> Inl e
      | Inr (v, rhs, h) \<Rightarrow>
          Inr ((data v, size_v v, capacity v), (data rhs, size_v rhs, capacity rhs),
               (cell_at h, used h, limit h, n_alloc h)))"

subsection \<open>Example states\<close>

text \<open>
  A heap holding two buffers: one of capacity 2 with one element at address 1, one of
  capacity 1 with one element at address 3.
\<close>

definition ex_alloc :: allocator where
  "ex_alloc = \<lparr>arena = 0, zero_is_null = False\<rparr>"

definition ex_heap :: "int heap" where
  "ex_heap =
     \<lparr>cells = (\<lambda>q. if q = 1 then Some (Live 5) else if q = 2 then Some Raw
                   else if q = 3 then Some (Live 9) else None),
      used = 3, limit = 8, n_alloc = 2\<rparr>"

definition ex_vec :: vector where
  "ex_vec = \<lparr>alloc = ex_alloc, data = 1, numCapacity = 2, numElements = 1\<rparr>"

definition ex_full :: vector where
  "ex_full = \<lparr>alloc = ex_alloc, data = 3, numCapacity = 1, numElements = 1\<rparr>"

definition ex_other :: vector where
  "ex_other = \<lparr>alloc = \<lparr>arena = 7, zero_is_null = False\<rparr>, data = 3, numCapacity = 1,
                numElements = 1\<rparr>"

section \<open>Basic facts\<close>

lemma ebind_Inr [simp]: "ebind (Inr x) f = f x" by (simp add: ebind_def)
lemma ebind_Inl [simp]: "ebind (Inl e) f = Inl e" by (simp add: ebind_def)

lemma ebind_eq_Inr: "ebind m f = Inr y \<longleftrightarrow> (\<exists>x. m = Inr x \<and> f x = Inr y)"
  by (cases m) simp_all

lemma for_loop_step: "i < n \<Longrightarrow> for_loop i n body s = ebind (body i s) (for_loop (Suc i) n body)"
  by (subst for_loop.simps) (simp add: ebind_def)

lemma for_loop_done: "\<not> i < n \<Longrightarrow> for_loop i n body s = Inr s"
  by (subst for_loop.simps) simp

lemma for_loop_rule:
  assumes "I i s" and "i \<le> n"
    and "\<And>k t. i \<le> k \<Longrightarrow> k < n \<Longrightarrow> I k t \<Longrightarrow> \<exists>t'. body k t = Inr t' \<and> I (Suc k) t'"
  shows "\<exists>s'. for_loop i n body s = Inr s' \<and> I n s'"
  using assms
proof (induction "n - i" arbitrary: i s)
  case 0
  then show ?case by (simp add: for_loop_done)
next
  case (Suc m)
  then have lt: "i < n" by simp
  from Suc.prems(3)[OF le_refl lt Suc.prems(1)]
  obtain t' where t': "body i s = Inr t'" "I (Suc i) t'" by blast
  have "\<exists>s'. for_loop (Suc i) n body t' = Inr s' \<and> I n s'"
  proof (rule Suc.hyps(1))
    show "m = n - Suc i" using Suc.hyps(2) by simp
    show "I (Suc i) t'" by (rule t')
    show "Suc i \<le> n" using lt by simp
    show "\<And>k t. Suc i \<le> k \<Longrightarrow> k < n \<Longrightarrow> I k t \<Longrightarrow> \<exists>t'. body k t = Inr t' \<and> I (Suc k) t'"
      using Suc.prems(3) by simp
  qed
  then show ?case using lt t' by (simp add: for_loop_step)
qed

lemma same_meta_refl [simp]: "same_meta h h" by (simp add: same_meta_def)

lemma cell_at_Some_range: "cell_at h q = Some c \<Longrightarrow> 0 < q \<and> q \<le> used h"
  by (auto simp: cell_at_def split: if_splits)

lemma construct_ok:
  "cell_at h q \<noteq> None \<Longrightarrow>
   \<exists>h'. construct a q x h = Inr h' \<and> same_meta h h' \<and>
        (\<forall>r. cell_at h' r = (if r = q then Some (Live x) else cell_at h r))"
  by (auto simp: construct_def cell_at_def same_meta_def split: if_splits)

lemma destroy_ok:
  "cell_at h q = Some (Live x) \<Longrightarrow>
   \<exists>h'. destroy a q h = Inr h' \<and> same_meta h h' \<and>
        (\<forall>r. cell_at h' r = (if r = q then Some Raw else cell_at h r))"
  by (auto simp: destroy_def cell_at_def same_meta_def split: if_splits)

lemma store_ok:
  "cell_at h q = Some (Live y) \<Longrightarrow>
   \<exists>h'. store q x h = Inr h' \<and> same_meta h h' \<and>
        (\<forall>r. cell_at h' r = (if r = q then Some (Live x) else cell_at h r))"
  by (auto simp: store_def cell_at_def same_meta_def split: if_splits)

lemma load_ok: "cell_at h q = Some (Live x) \<Longrightarrow> load h q = Inr x"
  by (simp add: load_def)

lemma load_eq_Inr: "load h q = Inr x \<longleftrightarrow> cell_at h q = Some (Live x)"
  by (auto simp: load_def split: option.splits cell.splits)

lemma allocate_ok:
  "0 < n \<Longrightarrow> used h + n \<le> limit h \<Longrightarrow>
   \<exists>h'. allocate a n h = Inr (Suc (used h), h') \<and> used h' = used h + n \<and>
        limit h' = limit h \<and> n_alloc h' = Suc (n_alloc h) \<and>
        (\<forall>r. cell_at h' r = (if used h < r \<and> r \<le> used h + n then Some Raw else cell_at h r))"
  by (auto simp: allocate_def cell_at_def max_def)

lemma allocate_fail: "0 < n \<Longrightarrow> limit h < used h + n \<Longrightarrow> allocate a n h = Inl BadAlloc"
  by (auto simp: allocate_def max_def)

lemma deallocate_ok:
  "\<forall>i<n. cell_at h (q + i) \<noteq> None \<Longrightarrow>
   \<exists>h'. deallocate a q n h = Inr h' \<and> same_meta h h' \<and>
        (\<forall>r. cell_at h' r = (if q \<le> r \<and> r < q + n then None else cell_at h r))"
  by (auto simp: deallocate_def cell_at_def same_meta_def list_all_iff)

subsection \<open>Loops\<close>

lemma same_meta_trans: "same_meta h t \<Longrightarrow> same_meta t u \<Longrightarrow> same_meta h u"
  by (simp add: same_meta_def)

lemma destroy_loop_ok:
  assumes live: "\<forall>k. i \<le> k \<and> k < n \<longrightarrow> (\<exists>x. cell_at h (d + k) = Some (Live x))"
  shows "\<exists>h'. for_loop i n (\<lambda>k. destroy a (d + k)) h = Inr h' \<and> same_meta h h' \<and>
        (\<forall>r. cell_at h' r = (if d + i \<le> r \<and> r < d + n then Some Raw else cell_at h r))"
proof (cases "i \<le> n")
  case False
  then show ?thesis by (auto simp: for_loop_done)
next
  case True
  let ?I = "\<lambda>k t. same_meta h t \<and>
     (\<forall>r. cell_at t r = (if d + i \<le> r \<and> r < d + k then Some Raw else cell_at h r))"
  have "\<exists>s'. for_loop i n (\<lambda>k. destroy a (d + k)) h = Inr s' \<and> ?I n s'"
  proof (rule for_loop_rule[where I = ?I])
    show "?I i h" by auto
    show "i \<le> n" by fact
    fix k t assume k: "i \<le> k" "k < n" and I: "?I k t"
    from live k obtain x where "cell_at h (d + k) = Some (Live x)" by blast
    with I k have "cell_at t (d + k) = Some (Live x)" by simp
    from destroy_ok[OF this, of a] obtain t' where
      "destroy a (d + k) t = Inr t'" "same_meta t t'"
      "\<forall>r. cell_at t' r = (if r = d + k then Some Raw else cell_at t r)" by blast
    with I k show "\<exists>t'. destroy a (d + k) t = Inr t' \<and> ?I (Suc k) t'"
      by (auto simp: same_meta_def)
  qed
  then show ?thesis by blast
qed

lemma fill_loop_ok:
  assumes alloc: "\<forall>k. i \<le> k \<and> k < n \<longrightarrow> cell_at h (d + k) \<noteq> None"
  shows "\<exists>h'. for_loop i n (\<lambda>k. construct a (d + k) x) h = Inr h' \<and> same_meta h h' \<and>
        (\<forall>r. cell_at h' r = (if d + i \<le> r \<and> r < d + n then Some (Live x) else cell_at h r))"
proof (cases "i \<le> n")
  case False
  then show ?thesis by (auto simp: for_loop_done)
next
  case True
  let ?I = "\<lambda>k t. same_meta h t \<and>
     (\<forall>r. cell_at t r = (if d + i \<le> r \<and> r < d + k then Some (Live x) else cell_at h r))"
  have "\<exists>s'. for_loop i n (\<lambda>k. construct a (d + k) x) h = Inr s' \<and> ?I n s'"
  proof (rule for_loop_rule[where I = ?I])
    show "?I i h" by auto
    show "i \<le> n" by fact
    fix k t assume k: "i \<le> k" "k < n" and I: "?I k t"
    from alloc k have "cell_at h (d + k) \<noteq> None" by blast
    with I k have "cell_at t (d + k) \<noteq> None" by simp
    from construct_ok[OF this, of a x] obtain t' where
      "construct a (d + k) x t = Inr t'" "same_meta t t'"
      "\<forall>r. cell_at t' r = (if r = d + k then Some (Live x) else cell_at t r)" by blast
    with I k show "\<exists>t'. construct a (d + k) x t = Inr t' \<and> ?I (Suc k) t'"
      by (auto simp: same_meta_def)
  qed
  then show ?thesis by blast
qed

lemma copy_loop_ok:
  assumes live: "\<forall>k. i \<le> k \<and> k < n \<longrightarrow> (\<exists>x. cell_at h (src + k) = Some (Live x))"
    and alloc: "\<forall>k. i \<le> k \<and> k < n \<longrightarrow> cell_at h (dst + k) \<noteq> None"
    and disj: "\<forall>k j. i \<le> k \<and> k < n \<and> i \<le> j \<and> j < n \<longrightarrow> dst + k \<noteq> src + j"
  shows "\<exists>h'. for_loop i n (copy_from a dst src) h = Inr h' \<and> same_meta h h' \<and>
        (\<forall>r. cell_at h' r =
           (if dst + i \<le> r \<and> r < dst + n then cell_at h (src + (r - dst)) else cell_at h r))"
proof (cases "i \<le> n")
  case False
  then show ?thesis by (auto simp: for_loop_done)
next
  case True
  let ?I = "\<lambda>k t. same_meta h t \<and>
     (\<forall>r. cell_at t r =
        (if dst + i \<le> r \<and> r < dst + k then cell_at h (src + (r - dst)) else cell_at h r))"
  have "\<exists>s'. for_loop i n (copy_from a dst src) h = Inr s' \<and> ?I n s'"
  proof (rule for_loop_rule[where I = ?I])
    show "?I i h" by auto
    show "i \<le> n" by fact
    fix k t assume k: "i \<le> k" "k < n" and I: "?I k t"
    from live k obtain x where x: "cell_at h (src + k) = Some (Live x)" by blast
    have "src + k < dst + i \<or> dst + k \<le> src + k"
    proof (rule ccontr)
      assume "\<not> ?thesis"
      then have "dst + i \<le> src + k" "src + k < dst + k" by simp_all
      then have "dst + (src + k - dst) = src + k" "i \<le> src + k - dst" "src + k - dst < n"
        using k by simp_all
      with disj k show False by metis
    qed
    with I x have lx: "cell_at t (src + k) = Some (Live x)" by auto
    from alloc k have "cell_at h (dst + k) \<noteq> None" by blast
    with I k have "cell_at t (dst + k) \<noteq> None" by simp
    from construct_ok[OF this, of a x] obtain t' where
      "construct a (dst + k) x t = Inr t'" "same_meta t t'"
      "\<forall>r. cell_at t' r = (if r = dst + k then Some (Live x) else cell_at t r)" by blast
    with I k x lx show "\<exists>t'. copy_from a dst src k t = Inr t' \<and> ?I (Suc k) t'"
      by (auto simp: same_meta_def copy_from_def load_ok)
  qed
  then show ?thesis by blast
qed

lemma assign_loop_ok:
  assumes live: "\<forall>k. i \<le> k \<and> k < n \<longrightarrow> (\<exists>x. cell_at h (src + k) = Some (Live x))"
    and dlive: "\<forall>k. i \<le> k \<and> k < n \<longrightarrow> (\<exists>y. cell_at h (dst + k) = Some (Live y))"
    and disj: "\<forall>k j. i \<le> k \<and> k < n \<and> i \<le> j \<and> j < n \<longrightarrow> dst + k \<noteq> src + j"
  shows "\<exists>h'. for_loop i n (assign_from dst src) h = Inr h' \<and> same_meta h h' \<and>
        (\<forall>r. cell_at h' r =
           (if dst + i \<le> r \<and> r < dst + n then cell_at h (src + (r - dst)) else cell_at h r))"
proof (cases "i \<le> n")
  case False
  then show ?thesis by (auto simp: for_loop_done)
next
  case True
  let ?I = "\<lambda>k t. same_meta h t \<and>
     (\<forall>r. cell_at t r =
        (if dst + i \<le> r \<and> r < dst + k then cell_at h (src + (r - dst)) else cell_at h r))"
  have "\<exists>s'. for_loop i n (assign_from dst src) h = Inr s' \<and> ?I n s'"
  proof (rule for_loop_rule[where I = ?I])
    show "?I i h" by auto
    show "i \<le> n" by fact
    fix k t assume k: "i \<le> k" "k < n" and I: "?I k t"
    from live k obtain x where x: "cell_at h (src + k) = Some (Live x)" by blast
    have "src + k < dst + i \<or> dst + k \<le> src + k"
    proof (rule ccontr)
      assume "\<not> ?thesis"
      then have "dst + i \<le> src + k" "src + k < dst + k" by simp_all
      then have "dst + (src + k - dst) = src + k" "i \<le> src + k - dst" "src + k - dst < n"
        using k by simp_all
      with disj k show False by metis
    qed
    with I x have lx: "cell_at t (src + k) = Some (Live x)" by auto
    from dlive k obtain y where "cell_at h (dst + k) = Some (Live y)" by blast
    with I k have "cell_at t (dst + k) = Some (Live y)" by simp
    from store_ok[OF this, of x] obtain t' where
      "store (dst + k) x t = Inr t'" "same_meta t t'"
      "\<forall>r. cell_at t' r = (if r = dst + k then Some (Live x) else cell_at t r)" by blast
    with I k x lx show "\<exists>t'. assign_from dst src k t = Inr t' \<and> ?I (Suc k) t'"
      by (auto simp: same_meta_def assign_from_def load_ok)
  qed
  then show ?thesis by blast
qed

lemma relocate_loop_ok:
  assumes live: "\<forall>k<n. \<exists>x. cell_at h (src + k) = Some (Live x)"
    and alloc: "\<forall>k<n. cell_at h (dst + k) \<noteq> None"
    and disj: "\<forall>k j. k < n \<and> j < n \<longrightarrow> dst + k \<noteq> src + j"
  shows "\<exists>h'. for_loop 0 n (relocate a dst src) h = Inr h' \<and> same_meta h h' \<and>
        (\<forall>r. cell_at h' r =
           (if dst \<le> r \<and> r < dst + n then cell_at h (src + (r - dst))
            else if src \<le> r \<and> r < src + n then Some Raw else cell_at h r))"
proof -
  let ?I = "\<lambda>k t. same_meta h t \<and>
     (\<forall>r. cell_at t r =
        (if dst \<le> r \<and> r < dst + k then cell_at h (src + (r - dst))
         else if src \<le> r \<and> r < src + k then Some Raw else cell_at h r))"
  have "\<exists>s'. for_loop 0 n (relocate a dst src) h = Inr s' \<and> ?I n s'"
  proof (rule for_loop_rule[where I = ?I])
    show "?I 0 h" by auto
    show "0 \<le> n" by simp
    fix k t assume k: "0 \<le> k" "k < n" and I: "?I k t"
    from live k obtain x where x: "cell_at h (src + k) = Some (Live x)" by blast
    have nd: "\<not> (dst \<le> src + k \<and> src + k < dst + n)"
    proof
      assume "dst \<le> src + k \<and> src + k < dst + n"
      then have "dst + (src + k - dst) = src + k" "src + k - dst < n" by linarith+
      with disj k show False by metis
    qed
    with I x k have lx: "cell_at t (src + k) = Some (Live x)" by auto
    have ns: "\<not> (src \<le> dst + k \<and> dst + k < src + n)"
    proof
      assume "src \<le> dst + k \<and> dst + k < src + n"
      then have "src + (dst + k - src) = dst + k" "dst + k - src < n" by linarith+
      with disj k show False by metis
    qed
    from alloc k have "cell_at h (dst + k) \<noteq> None" by blast
    with I k ns have "cell_at t (dst + k) \<noteq> None" by auto
    from construct_ok[OF this, of a x] obtain t1 where t1:
      "construct a (dst + k) x t = Inr t1" "same_meta t t1"
      "\<forall>r. cell_at t1 r = (if r = dst + k then Some (Live x) else cell_at t r)" by blast
    have "src + k \<noteq> dst + k" using disj k by metis
    with t1 lx have "cell_at t1 (src + k) = Some (Live x)" by simp
    from destroy_ok[OF this, of a] obtain t2 where t2:
      "destroy a (src + k) t1 = Inr t2" "same_meta t1 t2"
      "\<forall>r. cell_at t2 r = (if r = src + k then Some Raw else cell_at t1 r)" by blast
    have "?I (Suc k) t2"
      using I t1 t2 x k nd ns by (auto simp: same_meta_def)
    moreover have "relocate a dst src k t = Inr t2"
      using lx t1 t2 by (simp add: relocate_def load_ok)
    ultimately show "\<exists>t'. relocate a dst src k t = Inr t' \<and> ?I (Suc k) t'" by blast
  qed
  then show ?thesis by blast
qed

lemma construct_list_ok:
  "\<forall>k<length xs. cell_at h (d + k) \<noteq> None \<Longrightarrow>
   \<exists>h'. construct_list a d xs h = Inr h' \<and> same_meta h h' \<and>
        (\<forall>r. cell_at h' r =
           (if d \<le> r \<and> r < d + length xs then Some (Live (xs ! (r - d))) else cell_at h r))"
proof (induction xs arbitrary: d h)
  case Nil
  then show ?case by auto
next
  case (Cons x xs)
  from Cons.prems have "cell_at h d \<noteq> None" by force
  from construct_ok[OF this, of a x] obtain t where t:
    "construct a d x h = Inr t" "same_meta h t"
    "\<forall>r. cell_at t r = (if r = d then Some (Live x) else cell_at h r)" by blast
  have "\<forall>k<length xs. cell_at t (Suc d + k) \<noteq> None"
    using Cons.prems t(3) by force
  from Cons.IH[OF this] obtain h' where h':
    "construct_list a (Suc d) xs t = Inr h'" "same_meta t h'"
    "\<forall>r. cell_at h' r =
       (if Suc d \<le> r \<and> r < Suc d + length xs then Some (Live (xs ! (r - Suc d))) else cell_at t r)"
    by blast
  have "\<forall>r. cell_at h' r =
      (if d \<le> r \<and> r < d + length (x # xs) then Some (Live ((x # xs) ! (r - d))) else cell_at h r)"
    using h'(3) t(3) by (auto simp: nth_Cons' Suc_diff_le)
  then show ?case using t h' by (auto simp: same_meta_def)
qed

subsection \<open>The invariant\<close>

lemma is_live_iff: "is_live h q \<longleftrightarrow> (\<exists>x. cell_at h q = Some (Live x))"
  by (auto simp: is_live_def split: option.splits cell.splits)

lemma is_raw_iff: "is_raw h q \<longleftrightarrow> cell_at h q = Some Raw"
  by (auto simp: is_raw_def split: option.splits cell.splits)

lemma I1_iff:
  "I1 v h \<longleftrightarrow>
     (\<forall>i<numElements v. \<exists>x. cell_at h (data v + i) = Some (Live x)) \<and>
     (\<forall>i. numElements v \<le> i \<and> i < numCapacity v \<longrightarrow> cell_at h (data v + i) = Some Raw)"
  by (auto simp: I1_def list_all_iff is_live_iff is_raw_iff)

lemma invariant_iff:
  "invariant v h \<longleftrightarrow>
     numElements v \<le> numCapacity v \<and>
     (\<forall>i<numElements v. \<exists>x. cell_at h (data v + i) = Some (Live x)) \<and>
     (\<forall>i. numElements v \<le> i \<and> i < numCapacity v \<longrightarrow> cell_at h (data v + i) = Some Raw) \<and>
     ((data v = 0) = (numCapacity v = 0))"
  by (simp add: invariant_def I1_iff I2_def)

lemma invariant_vector_default: "invariant (vector_default a) h"
  by (simp add: invariant_iff vector_default_def)

lemma ex_vec_invariant: "invariant ex_vec ex_heap"
  by (simp add: invariant_def I1_def I2_def is_live_def is_raw_def cell_at_def ex_vec_def ex_heap_def
      upt_rec)

lemma ex_full_invariant: "invariant ex_full ex_heap"
  by (simp add: invariant_def I1_def I2_def is_live_def is_raw_def cell_at_def ex_full_def ex_heap_def
      upt_rec)


lemma ex_other_invariant: "invariant ex_other ex_heap"
  by (simp add: invariant_def I1_def I2_def is_live_def is_raw_def cell_at_def ex_other_def ex_heap_def
      upt_rec)

subsection \<open>Growing the buffer\<close>

text \<open>
  \<open>reserve\<close> and \<open>shrink_to_fit\<close> share their three steps: obtain a region of \<open>m\<close>
  elements, relocate the live elements into it, release the old region.
\<close>

lemma reallocate_ok:
  assumes le: "numElements v \<le> numCapacity v" and i1: "I1 v h"
    and fit: "numElements v \<le> newCapacity" and pos: "0 < newCapacity"
    and room: "used h + newCapacity \<le> limit h"
  shows "\<exists>h1 h2 h'. allocate (alloc v) newCapacity h = Inr (Suc (used h), h1) \<and>
         for_loop 0 (numElements v) (relocate (alloc v) (Suc (used h)) (data v)) h1 = Inr h2 \<and>
         deallocate (alloc v) (data v) (numCapacity v) h2 = Inr h' \<and>
         used h' = used h + newCapacity \<and> limit h' = limit h \<and>
         n_alloc h' = Suc (n_alloc h) \<and>
         (\<forall>r. cell_at h' r =
            (if used h < r \<and> r \<le> used h + newCapacity then
               (if r - Suc (used h) < numElements v
                then cell_at h (data v + (r - Suc (used h))) else Some Raw)
             else if data v \<le> r \<and> r < data v + numCapacity v then None
             else cell_at h r))"
proof -
  from allocate_ok[OF pos room, of "alloc v"] obtain h1 where h1:
    "allocate (alloc v) newCapacity h = Inr (Suc (used h), h1)"
    "used h1 = used h + newCapacity" "limit h1 = limit h" "n_alloc h1 = Suc (n_alloc h)"
    "\<forall>r. cell_at h1 r = (if used h < r \<and> r \<le> used h + newCapacity then Some Raw else cell_at h r)"
    by blast
  have old: "\<And>i. i < numCapacity v \<Longrightarrow> cell_at h (data v + i) \<noteq> None"
    using i1 le unfolding I1_iff by (metis not_le option.distinct(1))
  have inr: "\<And>i. i < numCapacity v \<Longrightarrow> data v + i \<le> used h"
    using old cell_at_Some_range by (metis not_None_eq)
  have live1: "\<forall>k<numElements v. \<exists>x. cell_at h1 (data v + k) = Some (Live x)"
  proof (intro allI impI)
    fix k assume k: "k < numElements v"
    then have "data v + k \<le> used h" using inr le by simp
    then have "cell_at h1 (data v + k) = cell_at h (data v + k)" using h1(5) by simp
    then show "\<exists>x. cell_at h1 (data v + k) = Some (Live x)"
      using i1 k unfolding I1_iff by simp
  qed
  have alloc1: "\<forall>k<numElements v. cell_at h1 (Suc (used h) + k) \<noteq> None"
    using h1(5) fit by auto
  have disj: "\<forall>k j. k < numElements v \<and> j < numElements v \<longrightarrow> Suc (used h) + k \<noteq> data v + j"
    using inr le by (metis add_Suc le_add1 less_le_trans not_less_eq_eq order_trans)
  from relocate_loop_ok[OF live1 alloc1 disj, of "alloc v"] obtain h2 where h2:
    "for_loop 0 (numElements v) (relocate (alloc v) (Suc (used h)) (data v)) h1 = Inr h2"
    "same_meta h1 h2"
    "\<forall>r. cell_at h2 r =
       (if Suc (used h) \<le> r \<and> r < Suc (used h) + numElements v
        then cell_at h1 (data v + (r - Suc (used h)))
        else if data v \<le> r \<and> r < data v + numElements v then Some Raw else cell_at h1 r)"
    by blast
  have "\<forall>i<numCapacity v. cell_at h2 (data v + i) \<noteq> None"
  proof (intro allI impI)
    fix i assume i: "i < numCapacity v"
    from inr[OF i] have "\<not> Suc (used h) \<le> data v + i" by simp
    moreover from inr[OF i] have "cell_at h1 (data v + i) = cell_at h (data v + i)"
      using h1(5) by simp
    ultimately show "cell_at h2 (data v + i) \<noteq> None"
      using h2(3) old[OF i] by simp
  qed
  from deallocate_ok[OF this, of "alloc v"] obtain h3 where h3:
    "deallocate (alloc v) (data v) (numCapacity v) h2 = Inr h3" "same_meta h2 h3"
    "\<forall>r. cell_at h3 r = (if data v \<le> r \<and> r < data v + numCapacity v then None else cell_at h2 r)"
    by blast
  have meta: "used h3 = used h + newCapacity" "limit h3 = limit h" "n_alloc h3 = Suc (n_alloc h)"
    using h1 h2(2) h3(2) by (simp_all add: same_meta_def)
  have cells: "cell_at h3 r =
            (if used h < r \<and> r \<le> used h + newCapacity then
               (if r - Suc (used h) < numElements v
                then cell_at h (data v + (r - Suc (used h))) else Some Raw)
             else if data v \<le> r \<and> r < data v + numCapacity v then None
             else cell_at h r)" for r
  proof (cases "used h < r \<and> r \<le> used h + newCapacity")
    case True
    have nd: "\<not> (data v \<le> r \<and> r < data v + numCapacity v)"
    proof
      assume a: "data v \<le> r \<and> r < data v + numCapacity v"
      then have "r - data v < numCapacity v" "data v + (r - data v) = r" by linarith+
      with inr[of "r - data v"] True show False by simp
    qed
    show ?thesis
    proof (cases "r - Suc (used h) < numElements v")
      case T2: True
      then have "data v + (r - Suc (used h)) \<le> used h" using inr le by simp
      then have "cell_at h1 (data v + (r - Suc (used h))) = cell_at h (data v + (r - Suc (used h)))"
        using h1(5) by simp
      then show ?thesis using True T2 nd h2(3) h3(3) by auto
    next
      case F2: False
      then show ?thesis using True nd h1(5) h2(3) h3(3) by auto
    qed
  next
    case False
    then have nr: "\<not> (Suc (used h) \<le> r \<and> r < Suc (used h) + numElements v)"
      using fit by auto
    have e2: "cell_at h2 r =
       (if Suc (used h) \<le> r \<and> r < Suc (used h) + numElements v
        then cell_at h1 (data v + (r - Suc (used h)))
        else if data v \<le> r \<and> r < data v + numElements v then Some Raw else cell_at h1 r)"
      using h2(3) by blast
    have "cell_at h2 r =
       (if data v \<le> r \<and> r < data v + numElements v then Some Raw else cell_at h1 r)"
      unfolding e2 by (rule if_not_P[OF nr])
    moreover have "cell_at h1 r = cell_at h r" using False h1(5) by auto
    ultimately show ?thesis using False h3(3) le by auto
  qed
  from h1(1) h2(1) h3(1) meta cells show ?thesis by blast
qed

lemma reserve_ok:
  assumes le: "numElements v \<le> numCapacity v" and i1: "I1 v h"
    and gt: "numCapacity v < newCapacity" and room: "used h + newCapacity \<le> limit h"
  shows "\<exists>h'. reserve v newCapacity h =
            Inr (v\<lparr>data := Suc (used h), numCapacity := newCapacity\<rparr>, h') \<and>
         used h' = used h + newCapacity \<and> limit h' = limit h \<and>
         n_alloc h' = Suc (n_alloc h) \<and>
         (\<forall>r. cell_at h' r =
            (if used h < r \<and> r \<le> used h + newCapacity then
               (if r - Suc (used h) < numElements v
                then cell_at h (data v + (r - Suc (used h))) else Some Raw)
             else if data v \<le> r \<and> r < data v + numCapacity v then None
             else cell_at h r))"
proof -
  from le gt have fit: "numElements v \<le> newCapacity" and pos: "0 < newCapacity" by simp_all
  from reallocate_ok[OF le i1 fit pos room] obtain h1 h2 h' where r:
    "allocate (alloc v) newCapacity h = Inr (Suc (used h), h1)"
    "for_loop 0 (numElements v) (relocate (alloc v) (Suc (used h)) (data v)) h1 = Inr h2"
    "deallocate (alloc v) (data v) (numCapacity v) h2 = Inr h'"
    and m: "used h' = used h + newCapacity" "limit h' = limit h" "n_alloc h' = Suc (n_alloc h)"
    and c: "\<forall>r. cell_at h' r =
            (if used h < r \<and> r \<le> used h + newCapacity then
               (if r - Suc (used h) < numElements v
                then cell_at h (data v + (r - Suc (used h))) else Some Raw)
             else if data v \<le> r \<and> r < data v + numCapacity v then None
             else cell_at h r)"
    by blast
  have "reserve v newCapacity h = Inr (v\<lparr>data := Suc (used h), numCapacity := newCapacity\<rparr>, h')"
    using gt r by (simp add: reserve_def)
  with m c show ?thesis by blast
qed



lemma push_back_nogrow:
  assumes inv: "invariant v h" and ne: "numCapacity v \<noteq> numElements v"
  shows "\<exists>h'. push_back v t h = Inr (v\<lparr>numElements := numElements v + 1\<rparr>, h') \<and>
           same_meta h h' \<and>
           (\<forall>r. cell_at h' r = (if r = data v + numElements v then Some (Live t) else cell_at h r))"
proof -
  from inv ne have "cell_at h (data v + numElements v) = Some Raw"
    unfolding invariant_iff by auto
  then have "cell_at h (data v + numElements v) \<noteq> None" by simp
  from construct_ok[OF this, of "alloc v" t] obtain h' where h':
    "construct (alloc v) (data v + numElements v) t h = Inr h'" "same_meta h h'"
    "\<forall>r. cell_at h' r = (if r = data v + numElements v then Some (Live t) else cell_at h r)"
    by blast
  have "push_back v t h = Inr (v\<lparr>numElements := numElements v + 1\<rparr>, h')"
    using ne h'(1) by (simp add: push_back_def)
  with h' show ?thesis by blast
qed

lemma push_back_grow:
  assumes inv: "invariant v h" and eq: "numCapacity v = numElements v"
    and room: "used h + grown (numCapacity v) \<le> limit h"
  shows "\<exists>h'. push_back v t h =
             Inr (v\<lparr>data := Suc (used h), numCapacity := grown (numCapacity v),
                    numElements := numElements v + 1\<rparr>, h') \<and>
           used h' = used h + grown (numCapacity v) \<and> limit h' = limit h \<and>
           n_alloc h' = Suc (n_alloc h) \<and>
           (\<forall>r. cell_at h' r =
              (if used h < r \<and> r \<le> used h + grown (numCapacity v) then
                 (if r - Suc (used h) < numElements v
                  then cell_at h (data v + (r - Suc (used h)))
                  else if r - Suc (used h) = numElements v then Some (Live t) else Some Raw)
               else if data v \<le> r \<and> r < data v + numCapacity v then None
               else cell_at h r))"
proof -
  let ?c = "grown (numCapacity v)"
  have gt: "numCapacity v < ?c" by (simp add: grown_def)
  from inv have le: "numElements v \<le> numCapacity v" and i1: "I1 v h"
    by (simp_all add: invariant_def)
  from reserve_ok[OF le i1 gt room] obtain h1 where h1:
    "reserve v ?c h = Inr (v\<lparr>data := Suc (used h), numCapacity := ?c\<rparr>, h1)"
    "used h1 = used h + ?c" "limit h1 = limit h" "n_alloc h1 = Suc (n_alloc h)"
    "\<forall>r. cell_at h1 r =
       (if used h < r \<and> r \<le> used h + ?c then
          (if r - Suc (used h) < numElements v
           then cell_at h (data v + (r - Suc (used h))) else Some Raw)
        else if data v \<le> r \<and> r < data v + numCapacity v then None
        else cell_at h r)"
    by blast
  have "cell_at h1 (Suc (used h) + numElements v) = Some Raw"
    using h1(5) gt eq by auto
  then have "cell_at h1 (Suc (used h) + numElements v) \<noteq> None" by simp
  from construct_ok[OF this, of "alloc v" t] obtain h2 where h2:
    "construct (alloc v) (Suc (used h) + numElements v) t h1 = Inr h2" "same_meta h1 h2"
    "\<forall>r. cell_at h2 r = (if r = Suc (used h) + numElements v then Some (Live t) else cell_at h1 r)"
    by blast
  have res: "push_back v t h =
       Inr (v\<lparr>data := Suc (used h), numCapacity := ?c, numElements := numElements v + 1\<rparr>, h2)"
    unfolding push_back_def grown_def[symmetric] using eq h1(1) h2(1) by simp
  have meta: "used h2 = used h + ?c" "limit h2 = limit h" "n_alloc h2 = Suc (n_alloc h)"
    using h1 h2(2) by (simp_all add: same_meta_def)
  have cells: "cell_at h2 r =
              (if used h < r \<and> r \<le> used h + ?c then
                 (if r - Suc (used h) < numElements v
                  then cell_at h (data v + (r - Suc (used h)))
                  else if r - Suc (used h) = numElements v then Some (Live t) else Some Raw)
               else if data v \<le> r \<and> r < data v + numCapacity v then None
               else cell_at h r)" for r
  proof (cases "r = Suc (used h) + numElements v")
    case True
    then show ?thesis using h2(3) gt eq by auto
  next
    case False
    then have "cell_at h2 r = cell_at h1 r" using h2(3) by auto
    moreover have "cell_at h1 r =
       (if used h < r \<and> r \<le> used h + ?c then
          (if r - Suc (used h) < numElements v
           then cell_at h (data v + (r - Suc (used h))) else Some Raw)
        else if data v \<le> r \<and> r < data v + numCapacity v then None
        else cell_at h r)" using h1(5) by blast
    ultimately show ?thesis using False by auto
  qed
  from res meta cells show ?thesis by blast
qed

lemma push_back_fail:
  assumes eq: "numCapacity v = numElements v"
    and room: "limit h < used h + grown (numCapacity v)"
  shows "push_back v t h = Inl BadAlloc"
proof -
  have "0 < grown (numCapacity v)" by (simp add: grown_def)
  from allocate_fail[OF this room]
  have "reserve v (grown (numCapacity v)) h = Inl BadAlloc"
    by (simp add: reserve_def grown_def)
  then show ?thesis
    unfolding push_back_def grown_def[symmetric] using eq by simp
qed

lemma push_back_result:
  assumes inv: "invariant v h" and res: "push_back v t h = Inr (v', h')"
  shows "invariant v' h' \<and> numElements v' = Suc (numElements v) \<and> limit h' = limit h \<and>
         alloc v' = alloc v \<and>
         cell_at h' (data v' + numElements v) = Some (Live t) \<and>
         (\<forall>i<numElements v. cell_at h' (data v' + i) = cell_at h (data v + i)) \<and>
         (numCapacity v \<noteq> numElements v \<longrightarrow>
            numCapacity v' = numCapacity v \<and> data v' = data v \<and>
            n_alloc h' = n_alloc h \<and> used h' = used h) \<and>
         (numCapacity v = numElements v \<longrightarrow>
            numCapacity v' = grown (numCapacity v) \<and> data v' = Suc (used h) \<and>
            n_alloc h' = Suc (n_alloc h) \<and> used h' = used h + grown (numCapacity v))"
proof (cases "numCapacity v = numElements v")
  case False
  from push_back_nogrow[OF inv False, of t] res
  have v': "v' = v\<lparr>numElements := numElements v + 1\<rparr>" and m: "same_meta h h'"
    and c: "\<forall>r. cell_at h' r = (if r = data v + numElements v then Some (Live t) else cell_at h r)"
    by auto
  have "invariant v' h'"
    using inv False unfolding invariant_iff v' by (auto simp: c)
  then show ?thesis using False v' m c by (auto simp: same_meta_def)
next
  case True
  have room: "used h + grown (numCapacity v) \<le> limit h"
  proof (rule ccontr)
    assume "\<not> ?thesis"
    then have "limit h < used h + grown (numCapacity v)" by simp
    from push_back_fail[OF True this, of t] res show False by simp
  qed
  let ?c = "grown (numCapacity v)"
  from push_back_grow[OF inv True room, of t] res
  have v': "v' = v\<lparr>data := Suc (used h), numCapacity := ?c, numElements := numElements v + 1\<rparr>"
    and m: "used h' = used h + ?c" "limit h' = limit h" "n_alloc h' = Suc (n_alloc h)"
    and c: "\<forall>r. cell_at h' r =
              (if used h < r \<and> r \<le> used h + ?c then
                 (if r - Suc (used h) < numElements v
                  then cell_at h (data v + (r - Suc (used h)))
                  else if r - Suc (used h) = numElements v then Some (Live t) else Some Raw)
               else if data v \<le> r \<and> r < data v + numCapacity v then None
               else cell_at h r)"
    by auto
  have gt: "numElements v < ?c" using True by (simp add: grown_def)
  have at: "cell_at h' (Suc (used h + i)) =
      (if i < numElements v then cell_at h (data v + i)
       else if i = numElements v then Some (Live t) else Some Raw)" if "i < ?c" for i
    using c that by auto
  have live: "\<exists>x. cell_at h' (Suc (used h + i)) = Some (Live x)" if "i < Suc (numElements v)" for i
  proof (cases "i < numElements v")
    case True
    then show ?thesis using at[of i] gt inv unfolding invariant_iff by simp
  next
    case False
    with that have "i = numElements v" by simp
    then show ?thesis using at[of i] gt by simp
  qed
  have raw: "cell_at h' (Suc (used h + i)) = Some Raw" if "Suc (numElements v) \<le> i" "i < ?c" for i
    using at[of i] that by simp
  have "invariant v' h'"
    unfolding invariant_iff v' using gt live raw by simp
  moreover have "cell_at h' (data v' + numElements v) = Some (Live t)"
    unfolding v' using at[of "numElements v"] gt by simp
  moreover have "\<forall>i<numElements v. cell_at h' (data v' + i) = cell_at h (data v + i)"
    unfolding v' using at gt by simp
  ultimately show ?thesis using True v' m by simp
qed

lemma push_back_total:
  assumes inv: "invariant v h"
    and room: "numCapacity v = numElements v \<longrightarrow> used h + grown (numCapacity v) \<le> limit h"
  shows "\<exists>v' h'. push_back v t h = Inr (v', h')"
proof (cases "numCapacity v = numElements v")
  case True
  with room have "used h + grown (numCapacity v) \<le> limit h" by simp
  from push_back_grow[OF inv True this, of t] show ?thesis by blast
next
  case False
  from push_back_nogrow[OF inv False, of t] show ?thesis by blast
qed

lemma push_all_snoc:
  "push_all v (ts @ [t]) h = ebind (push_all v ts h) (\<lambda>(v1, h1). push_back v1 t h1)"
proof (induction ts arbitrary: v h)
  case Nil
  show ?case by (cases "push_back v t h") auto
next
  case (Cons a ts)
  show ?case by (cases "push_back v a h") (auto simp: Cons.IH)
qed

lemma pop_back_live:
  assumes "numElements v \<noteq> 0" and "cell_at h (data v + numElements v - 1) = Some (Live x)"
  shows "\<exists>h'. pop_back v h = Inr (v\<lparr>numElements := numElements v - 1\<rparr>, h') \<and> same_meta h h' \<and>
           (\<forall>r. cell_at h' r =
              (if r = data v + numElements v - 1 then Some Raw else cell_at h r))"
proof -
  from destroy_ok[OF assms(2), of "alloc v"] obtain h' where h':
    "destroy (alloc v) (data v + numElements v - 1) h = Inr h'" "same_meta h h'"
    "\<forall>r. cell_at h' r = (if r = data v + numElements v - 1 then Some Raw else cell_at h r)"
    by blast
  have "pop_back v h = Inr (v\<lparr>numElements := numElements v - 1\<rparr>, h')"
    using assms(1) h'(1) by (simp add: pop_back_def)
  with h' show ?thesis by blast
qed

subsection \<open>Counting reallocations\<close>

lemma ceillog2_Suc_full: "0 < n \<Longrightarrow> n = 2 ^ ceillog2 n \<Longrightarrow> ceillog2 (Suc n) = Suc (ceillog2 n)"
  by (rule ceillog2_eqI) auto

lemma ceillog2_Suc_room: "0 < n \<Longrightarrow> n \<noteq> 2 ^ ceillog2 n \<Longrightarrow> ceillog2 (Suc n) = ceillog2 n"
proof (rule ceillog2_eqI)
  assume n: "0 < n" "n \<noteq> 2 ^ ceillog2 n"
  have "n \<le> 2 ^ ceillog2 n" by (rule le_two_power_ceillog2)
  with n show "Suc n \<le> 2 ^ ceillog2 n" by simp
  from two_power_ceillog2_gt[OF n(1)] show "2 ^ ceillog2 n < 2 * Suc n" by simp
qed

lemma cap_after_Suc:
  "cap_after (Suc n) = (if cap_after n = n then grown (cap_after n) else cap_after n)"
proof (cases "n = 0")
  case True
  then show ?thesis by (simp add: cap_after_def grown_def)
next
  case False
  then have n: "0 < n" by simp
  show ?thesis
  proof (cases "n = 2 ^ ceillog2 n")
    case True
    with ceillog2_Suc_full[OF n] have "ceillog2 (Suc n) = Suc (ceillog2 n)" by simp
    then show ?thesis using n True by (simp add: cap_after_def grown_def)
  next
    case F: False
    with ceillog2_Suc_room[OF n] have "ceillog2 (Suc n) = ceillog2 n" by simp
    then show ?thesis using n F by (auto simp: cap_after_def grown_def)
  qed
qed

lemma reallocs_Suc:
  "reallocs (Suc n) = (if cap_after n = n then Suc (reallocs n) else reallocs n)"
proof (cases "n = 0")
  case True
  then show ?thesis by (simp add: cap_after_def reallocs_def)
next
  case False
  then have n: "0 < n" by simp
  show ?thesis
  proof (cases "n = 2 ^ ceillog2 n")
    case True
    with ceillog2_Suc_full[OF n] have "ceillog2 (Suc n) = Suc (ceillog2 n)" by simp
    then show ?thesis using n True by (simp add: cap_after_def reallocs_def)
  next
    case F: False
    with ceillog2_Suc_room[OF n] have "ceillog2 (Suc n) = ceillog2 n" by simp
    then show ?thesis using n F by (auto simp: cap_after_def reallocs_def)
  qed
qed

lemma push_all_state:
  "push_all (vector_default a) xs h = Inr (v', h') \<Longrightarrow>
   invariant v' h' \<and> numElements v' = length xs \<and> numCapacity v' = cap_after (length xs) \<and>
   n_alloc h' = n_alloc h + reallocs (length xs) \<and> limit h' = limit h \<and>
   used h' + 1 = used h + 2 * cap_after (length xs) + (if xs = [] then 1 else 0)"
proof (induction xs arbitrary: v' h' rule: rev_induct)
  case Nil
  then show ?case
    by (auto simp: vector_default_def invariant_iff cap_after_def reallocs_def)
next
  case (snoc t ts)
  from snoc.prems obtain v1 h1 where p: "push_all (vector_default a) ts h = Inr (v1, h1)"
    and b: "push_back v1 t h1 = Inr (v', h')"
    by (auto simp: push_all_snoc ebind_eq_Inr)
  note st = snoc.IH[OF p]
  then have inv: "invariant v1 h1" by simp
  note r = push_back_result[OF inv b]
  have z: "(cap_after (length ts) = 0) = (ts = [])" by (simp add: cap_after_def)
  show ?case
  proof (cases "numCapacity v1 = numElements v1")
    case True
    then have full: "cap_after (length ts) = length ts" using st by simp
    have c: "cap_after (Suc (length ts)) = grown (cap_after (length ts))"
      and n: "reallocs (Suc (length ts)) = Suc (reallocs (length ts))"
      using full by (simp_all add: cap_after_Suc reallocs_Suc)
    have g: "grown (cap_after (length ts)) = (if ts = [] then 1 else 2 * cap_after (length ts))"
      using z by (simp add: grown_def)
    have u: "used h' = used h1 + grown (cap_after (length ts))"
      using r True st by simp
    have "used h' + 1 = used h + 2 * cap_after (Suc (length ts))"
      using u st g c z by (cases "ts = []") simp_all
    then show ?thesis using r st True c n by simp
  next
    case False
    then have nf: "cap_after (length ts) \<noteq> length ts" using st by simp
    then have ne: "ts \<noteq> []" by (auto simp: cap_after_def)
    have c: "cap_after (Suc (length ts)) = cap_after (length ts)"
      and n: "reallocs (Suc (length ts)) = reallocs (length ts)"
      using nf by (simp_all add: cap_after_Suc reallocs_Suc)
    show ?thesis using r st False c n ne by simp
  qed
qed

lemma push_all_total:
  "used h + 4 * length xs \<le> limit h \<Longrightarrow> \<exists>w k. push_all (vector_default a) xs h = Inr (w, k)"
proof (induction xs rule: rev_induct)
  case Nil
  show ?case by simp
next
  case (snoc t ts)
  then have "used h + 4 * length ts \<le> limit h" by simp
  from snoc.IH[OF this] obtain v1 h1 where p: "push_all (vector_default a) ts h = Inr (v1, h1)"
    by blast
  note st = push_all_state[OF p]
  have z: "(cap_after (length ts) = 0) = (ts = [])" by (simp add: cap_after_def)
  have "\<exists>v' h'. push_back v1 t h1 = Inr (v', h')"
  proof (rule push_back_total)
    show "invariant v1 h1" using st by simp
    show "numCapacity v1 = numElements v1 \<longrightarrow> used h1 + grown (numCapacity v1) \<le> limit h1"
    proof
      assume "numCapacity v1 = numElements v1"
      then have full: "cap_after (length ts) = length ts" using st by simp
      show "used h1 + grown (numCapacity v1) \<le> limit h1"
        using st full z snoc.prems by (cases "ts = []") (simp_all add: grown_def)
    qed
  qed
  then show ?case using p by (auto simp: push_all_snoc)
qed

lemma reallocs_le: "reallocs n \<le> ceillog2 n + 1"
  by (simp add: reallocs_def)

subsection \<open>Copies and the allocator\<close>

lemma the_vector_Some: "the_vector r = Some b \<longleftrightarrow> (\<exists>h. r = Inr (b, h))"
  by (auto simp: the_vector_def split: sum.splits)

lemma vector_copy_alloc: "vector_copy a0 rhs h = Inr (b, h') \<Longrightarrow> alloc b = a0"
  by (auto simp: vector_copy_def ebind_eq_Inr split: if_splits)

lemma assign_copy_alloc: "assign_copy same v rhs h = Inr (v', h') \<Longrightarrow> alloc v' = alloc v"
  by (auto simp: assign_copy_def ebind_eq_Inr split: if_splits)

lemma ex_copy_eval:
  "the_vector (vector_copy ex_alloc ex_other ex_heap) =
     Some \<lparr>alloc = ex_alloc, data = 4, numCapacity = 1, numElements = 1\<rparr>"
  by (simp add: the_vector_def vector_copy_def empty_v_def ex_other_def ex_heap_def ex_alloc_def
      allocate_def for_loop_int_def INT_MAX_def for_loop_step for_loop_done load_def construct_def
      copy_from_def cell_at_def)

lemma ex_assign_eval:
  "the_vector (assign_copy False ex_vec ex_other ex_heap) =
     Some \<lparr>alloc = ex_alloc, data = 1, numCapacity = 2, numElements = 1\<rparr>"
  by (simp add: the_vector_def assign_copy_def ex_vec_def ex_other_def ex_heap_def ex_alloc_def
      for_loop_step for_loop_done load_def store_def assign_from_def cell_at_def)

subsection \<open>The scenario on any heap with room\<close>

lemma stack_scenario_copy_run:
  assumes room: "used h0 + 7 \<le> limit h0"
  shows "stack_scenario_copy a0 h0 = Inr ((3, 3), (2, 2), True)"
proof -
  let ?c0 = "vector_default a0"
  have i0: "invariant ?c0 h0" by (rule invariant_vector_default)
  have c0: "numCapacity ?c0 = 0" "numElements ?c0 = 0" by (simp_all add: vector_default_def)
  have "\<exists>v' h'. push_back ?c0 (1::int) h0 = Inr (v', h')"
    using room by (intro push_back_total[OF i0]) (simp add: c0 grown_def)
  then obtain v1 h1 where p1: "push_back ?c0 (1::int) h0 = Inr (v1, h1)" by blast
  note r1 = push_back_result[OF i0 p1]
  from r1 have i1: "invariant v1 h1" and n1: "numElements v1 = 1" "numCapacity v1 = 1"
    and u1: "used h1 = used h0 + 1" "limit h1 = limit h0"
    and e1: "cell_at h1 (data v1 + 0) = Some (Live 1)"
    by (auto simp: c0 grown_def)
  have "\<exists>v' h'. push_back v1 (2::int) h1 = Inr (v', h')"
    using room by (intro push_back_total[OF i1]) (simp add: n1 u1 grown_def)
  then obtain v2 h2 where p2: "push_back v1 (2::int) h1 = Inr (v2, h2)" by blast
  note r2 = push_back_result[OF i1 p2]
  from r2 have i2: "invariant v2 h2" and n2: "numElements v2 = 2" "numCapacity v2 = 2"
    and u2: "used h2 = used h0 + 3" "limit h2 = limit h0"
    and e2: "cell_at h2 (data v2 + 1) = Some (Live 2)"
    by (auto simp: n1 u1 grown_def)
  from r2 n1 e1 have e2': "cell_at h2 (data v2 + 0) = Some (Live 1)" by auto
  have "\<exists>v' h'. push_back v2 (3::int) h2 = Inr (v', h')"
    using room by (intro push_back_total[OF i2]) (simp add: n2 u2 grown_def)
  then obtain v3 h3 where p3: "push_back v2 (3::int) h2 = Inr (v3, h3)" by blast
  note r3 = push_back_result[OF i2 p3]
  from r3 have n3: "numElements v3 = 3"
    and e3: "cell_at h3 (data v3 + 2) = Some (Live 3)"
    by (auto simp: n2)
  from r3 have pres: "\<forall>i<2. cell_at h3 (data v3 + i) = cell_at h2 (data v2 + i)"
    by (auto simp: n2)
  from pres[rule_format, of 1] e2 have e3a: "cell_at h3 (data v3 + 1) = Some (Live 2)" by simp
  from pres[rule_format, of 0] e2' have e3b: "cell_at h3 (data v3 + 0) = Some (Live 1)" by simp
  have t3: "back_v v3 h3 = Inr 3"
    using e3 by (simp add: back_v_def n3 load_ok)
  have "cell_at h3 (data v3 + numElements v3 - 1) = Some (Live 3)" using e3 by (simp add: n3)
  from pop_back_live[OF _ this] n3 obtain h4 where p4:
    "pop_back v3 h3 = Inr (v3\<lparr>numElements := 2\<rparr>, h4)"
    "\<forall>r. cell_at h4 r = (if r = data v3 + 2 then Some Raw else cell_at h3 r)"
    by auto
  let ?v4 = "v3\<lparr>numElements := 2\<rparr>"
  have e4a: "cell_at h4 (data v3 + 1) = Some (Live 2)" using p4(2) e3a by simp
  have e4b: "cell_at h4 (data v3 + 0) = Some (Live 1)" using p4(2) e3b by simp
  have t4: "back_v ?v4 h4 = Inr 2"
    using e4a by (simp add: back_v_def load_ok)
  have "cell_at h4 (data ?v4 + numElements ?v4 - 1) = Some (Live 2)" using e4a by simp
  from pop_back_live[OF _ this] obtain h5 where p5:
    "pop_back ?v4 h4 = Inr (v3\<lparr>numElements := Suc 0\<rparr>, h5)"
    "\<forall>r. cell_at h5 r = (if r = data v3 + 1 then Some Raw else cell_at h4 r)"
    by auto
  let ?v5 = "v3\<lparr>numElements := Suc 0\<rparr>"
  have e5b: "cell_at h5 (data v3 + 0) = Some (Live 1)" using p5(2) e4b by simp
  have "cell_at h5 (data ?v5 + numElements ?v5 - 1) = Some (Live 1)" using e5b by simp
  from pop_back_live[OF _ this] obtain h6 where p6:
    "pop_back ?v5 h5 = Inr (v3\<lparr>numElements := 0\<rparr>, h6)"
    by auto
  show ?thesis
    unfolding stack_scenario_copy_def stack_push_def stack_pop_def stack_top_def stack_default_def
      stack_size_def stack_empty_def size_v_def empty_v_def
    by (simp add: p1 p2 p3 t3 p4 t4 p5 p6 n3)
qed

lemma push_back_move_copy: "push_back_move v t h = push_back v t h"
  unfolding push_back_move_def push_back_def ..

lemma stack_push_move_copy: "stack_push_move s t h = stack_push s t h"
  unfolding stack_push_move_def stack_push_def push_back_move_copy ..

lemma stack_scenario_run:
  assumes room: "used h0 + 7 \<le> limit h0"
  shows "stack_scenario a0 h0 = Inr ((3, 3), (2, 2), True)"
proof -
  have "stack_scenario a0 h0 = stack_scenario_copy a0 h0"
    unfolding stack_scenario_def stack_scenario_copy_def stack_push_move_copy ..
  with stack_scenario_copy_run[OF room] show ?thesis by simp
qed


subsection \<open>Move assignment\<close>

lemma assign_move_refines:
  assumes "I2 v"
  shows "observe_move (assign_move v rhs h) = observe_move (assign_move_spec v rhs h)"
proof (cases "for_loop 0 (numElements v) (\<lambda>i. destroy (alloc v) (data v + i)) h")
  case (Inl e)
  then show ?thesis
    by (simp add: assign_move_def assign_move_spec_def release_def clear_def observe_move_def)
next
  case (Inr h1)
  show ?thesis
  proof (cases "numCapacity v = 0")
    case True
    with assms have "data v = 0" by (simp add: I2_def)
    with True Inr show ?thesis
      by (simp add: assign_move_def assign_move_spec_def release_def clear_def observe_move_def
          shrink_to_fit_def swap_v_def size_v_def capacity_def)
  next
    case False
    with assms have d: "data v \<noteq> 0" by (simp add: I2_def)
    show ?thesis
    proof (cases "deallocate (alloc v) (data v) (numCapacity v) h1")
      case (Inl e)
      with False d Inr show ?thesis
        by (simp add: assign_move_def assign_move_spec_def release_def clear_def observe_move_def
            shrink_to_fit_def deallocate_def split: if_splits)
    next
      case (Inr h2)
      with False d \<open>for_loop 0 (numElements v) (\<lambda>i. destroy (alloc v) (data v + i)) h = Inr h1\<close>
      show ?thesis
        by (simp add: assign_move_def assign_move_spec_def release_def clear_def observe_move_def
            shrink_to_fit_def swap_v_def size_v_def capacity_def deallocate_def split: if_splits)
    qed
  qed
qed

lemma assign_move_ok:
  assumes inv: "invariant v h"
  shows "\<exists>v' rhs' h'. assign_move v rhs h = Inr (v', rhs', h') \<and>
           data v' = data rhs \<and> numElements v' = numElements rhs \<and>
           numCapacity v' = numCapacity rhs \<and> alloc v' = alloc rhs \<and>
           data rhs' = 0 \<and> size_v rhs' = 0 \<and> capacity rhs' = 0 \<and> alloc rhs' = alloc v \<and>
           same_meta h h' \<and>
           (\<forall>r. cell_at h' r =
              (if data v \<le> r \<and> r < data v + numCapacity v then None else cell_at h r))"
proof -
  from inv have live: "\<forall>k. 0 \<le> k \<and> k < numElements v \<longrightarrow> (\<exists>x. cell_at h (data v + k) = Some (Live x))"
    and raw: "\<forall>i. numElements v \<le> i \<and> i < numCapacity v \<longrightarrow> cell_at h (data v + i) = Some Raw"
    and le: "numElements v \<le> numCapacity v"
    and i2: "(data v = 0) = (numCapacity v = 0)"
    unfolding invariant_iff by auto
  from destroy_loop_ok[OF live, of "alloc v"] obtain h1 where h1:
    "for_loop 0 (numElements v) (\<lambda>k. destroy (alloc v) (data v + k)) h = Inr h1" "same_meta h h1"
    "\<forall>r. cell_at h1 r = (if data v + 0 \<le> r \<and> r < data v + numElements v then Some Raw else cell_at h r)"
    by blast
  have c: "clear v h = Inr (v\<lparr>numElements := 0\<rparr>, h1)" using h1(1) by (simp add: clear_def)
  show ?thesis
  proof (cases "numCapacity v = 0")
    case True
    then have "numElements v = 0" using le by simp
    with True h1 c show ?thesis
      by (auto simp: assign_move_def shrink_to_fit_def swap_v_def size_v_def capacity_def i2)
  next
    case False
    have "\<forall>i<numCapacity v. cell_at h1 (data v + i) \<noteq> None"
      using h1(3) raw by (auto simp: not_less)
    from deallocate_ok[OF this, of "alloc v"] obtain h2 where h2:
      "deallocate (alloc v) (data v) (numCapacity v) h1 = Inr h2" "same_meta h1 h2"
      "\<forall>r. cell_at h2 r = (if data v \<le> r \<and> r < data v + numCapacity v then None else cell_at h1 r)"
      by blast
    have s: "shrink_to_fit (v\<lparr>numElements := 0\<rparr>) h1 = Inr (v\<lparr>numElements := 0, data := 0, numCapacity := 0\<rparr>, h2)"
      using False h2(1) by (simp add: shrink_to_fit_def)
    have cells: "\<forall>r. cell_at h2 r =
              (if data v \<le> r \<and> r < data v + numCapacity v then None else cell_at h r)"
      using h2(3) h1(3) le by auto
    have m: "same_meta h h2" using h1(2) h2(2) by (rule same_meta_trans)
    show ?thesis
      using c s cells m by (simp add: assign_move_def swap_v_def size_v_def capacity_def)
  qed
qed

subsection \<open>The copy constructor\<close>



lemma load_cong_cell: "cell_at h q = cell_at h' q' \<Longrightarrow> load h q = load h' q'"
  by (simp add: load_def)

subsection \<open>The invariant is kept\<close>

text \<open>
  Every operation that changes a vector keeps the invariant, and every constructor
  establishes it, with one exception: the sized, the fill and the initializer-list
  constructor at length zero, when the allocator answers a request for zero elements with
  an address that is not null (\<open>vector_fill_zero\<close>, \<open>vector_init_list_zero\<close>).
  \<^verbatim>\<open>push_back\<close> is covered by \<open>push_back_result\<close> above.
\<close>

lemma allocate_room: "0 < n \<Longrightarrow> allocate a n h = Inr r \<Longrightarrow> used h + n \<le> limit h"
  by (auto simp: allocate_def max_def split: if_splits)

lemma invariantD:
  assumes "invariant v h"
  shows "numElements v \<le> numCapacity v"
    and "\<And>i. i < numElements v \<Longrightarrow> \<exists>x. cell_at h (data v + i) = Some (Live x)"
    and "\<And>i. numElements v \<le> i \<Longrightarrow> i < numCapacity v \<Longrightarrow> cell_at h (data v + i) = Some Raw"
    and "(data v = 0) = (numCapacity v = 0)"
  using assms unfolding invariant_iff by simp_all

lemma invariantI:
  assumes "numElements v \<le> numCapacity v"
    and "\<And>i. i < numElements v \<Longrightarrow> \<exists>x. cell_at h (data v + i) = Some (Live x)"
    and "\<And>i. numElements v \<le> i \<Longrightarrow> i < numCapacity v \<Longrightarrow> cell_at h (data v + i) = Some Raw"
    and "(data v = 0) = (numCapacity v = 0)"
  shows "invariant v h"
  using assms unfolding invariant_iff by simp

lemma invariant_mapped:
  assumes "invariant v h" and "i < numCapacity v"
  shows "cell_at h (data v + i) \<noteq> None"
proof (cases "i < numElements v")
  case True
  with invariantD(2)[OF assms(1)] show ?thesis by fastforce
next
  case False
  with invariantD(3)[OF assms(1), of i] assms(2) show ?thesis by simp
qed

lemma invariant_in_range:
  assumes "invariant v h" and "i < numCapacity v"
  shows "0 < data v + i \<and> data v + i \<le> used h"
proof -
  from invariant_mapped[OF assms] obtain c where "cell_at h (data v + i) = Some c" by blast
  then show ?thesis by (rule cell_at_Some_range)
qed

lemma invariant_cells_cong:
  assumes inv: "invariant v h"
    and same: "\<And>i. i < numCapacity v \<Longrightarrow> cell_at h' (data v + i) = cell_at h (data v + i)"
  shows "invariant v h'"
proof (rule invariantI)
  show "numElements v \<le> numCapacity v" by (rule invariantD(1)[OF inv])
  show "(data v = 0) = (numCapacity v = 0)" by (rule invariantD(4)[OF inv])
next
  fix i assume i: "i < numElements v"
  with invariantD(1)[OF inv] have "i < numCapacity v" by simp
  from same[OF this] invariantD(2)[OF inv i]
  show "\<exists>x. cell_at h' (data v + i) = Some (Live x)" by simp
next
  fix i assume i: "numElements v \<le> i" "i < numCapacity v"
  from same[OF i(2)] invariantD(3)[OF inv i]
  show "cell_at h' (data v + i) = Some Raw" by simp
qed

lemma reserve_invariant:
  assumes inv: "invariant v h" and res: "reserve v newCapacity h = Inr (v', h')"
  shows "invariant v' h' \<and> numElements v' = numElements v \<and> alloc v' = alloc v \<and>
         numCapacity v' = max (numCapacity v) newCapacity \<and> limit h' = limit h \<and>
         (\<forall>i<numElements v. cell_at h' (data v' + i) = cell_at h (data v + i))"
proof (cases "newCapacity \<le> numCapacity v")
  case True
  with res have "v' = v" "h' = h" by (simp_all add: reserve_def)
  with inv True show ?thesis by (simp add: max_def)
next
  case False
  then have gt: "numCapacity v < newCapacity" by simp
  note le = invariantD(1)[OF inv]
  from inv have i1: "I1 v h" by (simp add: invariant_def)
  from res gt obtain r where "allocate (alloc v) newCapacity h = Inr r"
    by (auto simp: reserve_def ebind_eq_Inr)
  from allocate_room[OF _ this] gt have room: "used h + newCapacity \<le> limit h" by simp
  from reserve_ok[OF le i1 gt room] res
  have v': "v' = v\<lparr>data := Suc (used h), numCapacity := newCapacity\<rparr>"
    and l: "limit h' = limit h"
    and c: "\<forall>r. cell_at h' r =
            (if used h < r \<and> r \<le> used h + newCapacity then
               (if r - Suc (used h) < numElements v
                then cell_at h (data v + (r - Suc (used h))) else Some Raw)
             else if data v \<le> r \<and> r < data v + numCapacity v then None
             else cell_at h r)"
    by auto
  have at: "cell_at h' (Suc (used h) + i) =
      (if i < numElements v then cell_at h (data v + i) else Some Raw)" if "i < newCapacity" for i
    using c that by auto
  have "invariant v' h'"
  proof (rule invariantI)
    show "numElements v' \<le> numCapacity v'" using le gt by (simp add: v')
    show "(data v' = 0) = (numCapacity v' = 0)" using gt by (simp add: v')
  next
    fix i assume i: "i < numElements v'"
    then have "i < numElements v" "i < newCapacity" using le gt by (simp_all add: v')
    with at[of i] invariantD(2)[OF inv, of i]
    show "\<exists>x. cell_at h' (data v' + i) = Some (Live x)" by (simp add: v')
  next
    fix i assume i: "numElements v' \<le> i" "i < numCapacity v'"
    then have "\<not> i < numElements v" "i < newCapacity" by (simp_all add: v')
    with at[of i] show "cell_at h' (data v' + i) = Some Raw" by (simp add: v')
  qed
  moreover have "\<forall>i<numElements v. cell_at h' (data v' + i) = cell_at h (data v + i)"
  proof (intro allI impI)
    fix i assume i: "i < numElements v"
    then have "i < newCapacity" using le gt by simp
    from at[OF this] i show "cell_at h' (data v' + i) = cell_at h (data v + i)" by (simp add: v')
  qed
  ultimately show ?thesis using v' l gt by (simp add: max_def)
qed

lemma clear_invariant:
  assumes inv: "invariant v h"
  shows "\<exists>h'. clear v h = Inr (v\<lparr>numElements := 0\<rparr>, h') \<and> invariant (v\<lparr>numElements := 0\<rparr>) h' \<and>
           same_meta h h' \<and>
           (\<forall>r. cell_at h' r =
              (if data v \<le> r \<and> r < data v + numElements v then Some Raw else cell_at h r))"
proof -
  have live: "\<forall>k. 0 \<le> k \<and> k < numElements v \<longrightarrow> (\<exists>x. cell_at h (data v + k) = Some (Live x))"
    using invariantD(2)[OF inv] by simp
  from destroy_loop_ok[OF live, of "alloc v"] obtain h1 where h1:
    "for_loop 0 (numElements v) (\<lambda>k. destroy (alloc v) (data v + k)) h = Inr h1" "same_meta h h1"
    and c: "\<forall>r. cell_at h1 r =
       (if data v + 0 \<le> r \<and> r < data v + numElements v then Some Raw else cell_at h r)"
    by blast
  have at: "cell_at h1 (data v + i) = (if i < numElements v then Some Raw else cell_at h (data v + i))"
    for i using c by simp
  have cl: "clear v h = Inr (v\<lparr>numElements := 0\<rparr>, h1)" using h1(1) by (simp add: clear_def)
  have "invariant (v\<lparr>numElements := 0\<rparr>) h1"
  proof (rule invariantI)
    fix i assume "numElements (v\<lparr>numElements := 0\<rparr>) \<le> i" "i < numCapacity (v\<lparr>numElements := 0\<rparr>)"
    then have i: "i < numCapacity v" by simp
    show "cell_at h1 (data (v\<lparr>numElements := 0\<rparr>) + i) = Some Raw"
    proof (cases "i < numElements v")
      case True
      then show ?thesis using at[of i] by simp
    next
      case False
      with invariantD(3)[OF inv, of i] i at[of i] show ?thesis by simp
    qed
  qed (use invariantD(4)[OF inv] in simp_all)
  with cl h1 c show ?thesis by auto
qed

lemma pop_back_invariant:
  assumes inv: "invariant v h"
  shows "\<exists>v' h'. pop_back v h = Inr (v', h') \<and> invariant v' h' \<and> same_meta h h' \<and>
           numElements v' = numElements v - 1 \<and> numCapacity v' = numCapacity v \<and>
           data v' = data v \<and> alloc v' = alloc v"
proof (cases "numElements v = 0")
  case True
  with inv show ?thesis by (simp add: pop_back_def)
next
  case False
  let ?n = "numElements v - 1"
  from False have n: "?n < numElements v" "data v + numElements v - 1 = data v + ?n" by simp_all
  from invariantD(2)[OF inv n(1)] obtain x where "cell_at h (data v + ?n) = Some (Live x)" by blast
  then have "cell_at h (data v + numElements v - 1) = Some (Live x)" using n(2) by simp
  from pop_back_live[OF False this] obtain h' where h':
    "pop_back v h = Inr (v\<lparr>numElements := ?n\<rparr>, h')" "same_meta h h'"
    and c: "\<forall>r. cell_at h' r = (if r = data v + numElements v - 1 then Some Raw else cell_at h r)"
    by blast
  have at: "cell_at h' (data v + i) = (if i = ?n then Some Raw else cell_at h (data v + i))" for i
    using c n(2) by simp
  have "invariant (v\<lparr>numElements := ?n\<rparr>) h'"
  proof (rule invariantI)
    show "numElements (v\<lparr>numElements := ?n\<rparr>) \<le> numCapacity (v\<lparr>numElements := ?n\<rparr>)"
      using invariantD(1)[OF inv] by simp
    show "(data (v\<lparr>numElements := ?n\<rparr>) = 0) = (numCapacity (v\<lparr>numElements := ?n\<rparr>) = 0)"
      using invariantD(4)[OF inv] by simp
  next
    fix i assume "i < numElements (v\<lparr>numElements := ?n\<rparr>)"
    then have i: "i < ?n" by simp
    then have "i < numElements v" "i \<noteq> ?n" by simp_all
    with invariantD(2)[OF inv, of i] at[of i]
    show "\<exists>x. cell_at h' (data (v\<lparr>numElements := ?n\<rparr>) + i) = Some (Live x)" by simp
  next
    fix i assume "numElements (v\<lparr>numElements := ?n\<rparr>) \<le> i" "i < numCapacity (v\<lparr>numElements := ?n\<rparr>)"
    then have i: "?n \<le> i" "i < numCapacity v" by simp_all
    show "cell_at h' (data (v\<lparr>numElements := ?n\<rparr>) + i) = Some Raw"
    proof (cases "i = ?n")
      case True
      then show ?thesis using at[of i] by simp
    next
      case F: False
      with i False have "numElements v \<le> i" by simp
      from invariantD(3)[OF inv this i(2)] at[of i] F show ?thesis by simp
    qed
  qed
  with h' show ?thesis by auto
qed

lemma shrink_to_fit_invariant:
  assumes inv: "invariant v h" and res: "shrink_to_fit v h = Inr (v', h')"
  shows "invariant v' h' \<and> numElements v' = numElements v \<and> alloc v' = alloc v \<and>
         numCapacity v' = numElements v \<and> limit h' = limit h \<and>
         (\<forall>i<numElements v. cell_at h' (data v' + i) = cell_at h (data v + i))"
proof -
  note le = invariantD(1)[OF inv]
  consider (fit) "numCapacity v \<le> numElements v"
    | (slack) "numElements v < numCapacity v" "0 < numElements v"
    | (none) "numElements v < numCapacity v" "numElements v = 0"
    by linarith
  then show ?thesis
  proof cases
    case fit
    with res have "v' = v" "h' = h" by (simp_all add: shrink_to_fit_def)
    with inv fit le show ?thesis by simp
  next
    case slack
    let ?n = "numElements v"
    from inv have i1: "I1 v h" by (simp add: invariant_def)
    from res slack obtain r where "allocate (alloc v) ?n h = Inr r"
      by (auto simp: shrink_to_fit_def ebind_eq_Inr)
    from allocate_room[OF slack(2) this] have room: "used h + ?n \<le> limit h" .
    from reallocate_ok[OF le i1 le_refl slack(2) room] obtain h1 h2 h3 where r:
      "allocate (alloc v) ?n h = Inr (Suc (used h), h1)"
      "for_loop 0 ?n (relocate (alloc v) (Suc (used h)) (data v)) h1 = Inr h2"
      "deallocate (alloc v) (data v) (numCapacity v) h2 = Inr h3"
      and l: "limit h3 = limit h"
      and c: "\<forall>r. cell_at h3 r =
            (if used h < r \<and> r \<le> used h + ?n then
               (if r - Suc (used h) < ?n
                then cell_at h (data v + (r - Suc (used h))) else Some Raw)
             else if data v \<le> r \<and> r < data v + numCapacity v then None
             else cell_at h r)"
      by blast
    from res slack r have v': "v' = v\<lparr>data := Suc (used h), numCapacity := ?n\<rparr>" and h': "h' = h3"
      by (simp_all add: shrink_to_fit_def)
    have at: "cell_at h3 (Suc (used h) + i) = cell_at h (data v + i)" if "i < ?n" for i
      using c that by auto
    have "invariant v' h3"
    proof (rule invariantI)
      fix i assume "i < numElements v'"
      then have i: "i < ?n" by (simp add: v')
      from at[OF i] invariantD(2)[OF inv i]
      show "\<exists>x. cell_at h3 (data v' + i) = Some (Live x)" by (simp add: v')
    qed (use slack in \<open>simp_all add: v'\<close>)
    moreover have "\<forall>i<?n. cell_at h3 (data v' + i) = cell_at h (data v + i)"
      using at by (simp add: v')
    ultimately show ?thesis using v' h' l by simp
  next
    case none
    have "\<forall>i<numCapacity v. cell_at h (data v + i) \<noteq> None"
      using invariant_mapped[OF inv] by simp
    from deallocate_ok[OF this, of "alloc v"] obtain h1 where h1:
      "deallocate (alloc v) (data v) (numCapacity v) h = Inr h1" "same_meta h h1"
      by blast
    from res none h1 have v': "v' = v\<lparr>data := 0, numCapacity := 0\<rparr>" and h': "h' = h1"
      by (simp_all add: shrink_to_fit_def)
    have "invariant v' h1"
      by (rule invariantI) (use none in \<open>simp_all add: v'\<close>)
    then show ?thesis using v' h' none h1(2) by (simp add: same_meta_def)
  qed
qed

lemma resize_fill_invariant:
  assumes inv: "invariant v h" and res: "resize_fill v newElements t h = Inr (v', h')"
  shows "invariant v' h' \<and> numElements v' = newElements \<and> alloc v' = alloc v \<and>
         limit h' = limit h \<and>
         (\<forall>i. i < numElements v \<and> i < newElements \<longrightarrow>
              cell_at h' (data v' + i) = cell_at h (data v + i)) \<and>
         (\<forall>i. numElements v \<le> i \<and> i < newElements \<longrightarrow>
              cell_at h' (data v' + i) = Some (Live t))"
proof -
  note le = invariantD(1)[OF inv]
  consider (shrink) "newElements < numElements v" | (grow) "numElements v < newElements"
    | (same) "newElements = numElements v"
    by linarith
  then show ?thesis
  proof cases
    case shrink
    have live: "\<forall>k. newElements \<le> k \<and> k < numElements v \<longrightarrow>
        (\<exists>x. cell_at h (data v + k) = Some (Live x))"
      using invariantD(2)[OF inv] by simp
    from destroy_loop_ok[OF live, of "alloc v"] obtain h1 where h1:
      "for_loop newElements (numElements v) (\<lambda>k. destroy (alloc v) (data v + k)) h = Inr h1"
      "same_meta h h1"
      and c: "\<forall>r. cell_at h1 r =
         (if data v + newElements \<le> r \<and> r < data v + numElements v then Some Raw else cell_at h r)"
      by blast
    from res shrink h1(1) have v': "v' = v\<lparr>numElements := newElements\<rparr>" and h': "h' = h1"
      by (simp_all add: resize_fill_def)
    have at: "cell_at h1 (data v + i) =
        (if newElements \<le> i \<and> i < numElements v then Some Raw else cell_at h (data v + i))" for i
      using c by simp
    have "invariant v' h1"
    proof (rule invariantI)
      fix i assume "i < numElements v'"
      then have i: "i < newElements" by (simp add: v')
      with shrink have "i < numElements v" by simp
      from invariantD(2)[OF inv this] at[of i] i
      show "\<exists>x. cell_at h1 (data v' + i) = Some (Live x)" by (simp add: v')
    next
      fix i assume "numElements v' \<le> i" "i < numCapacity v'"
      then have i: "newElements \<le> i" "i < numCapacity v" by (simp_all add: v')
      show "cell_at h1 (data v' + i) = Some Raw"
      proof (cases "i < numElements v")
        case True
        with at[of i] i show ?thesis by (simp add: v')
      next
        case False
        then have "numElements v \<le> i" by simp
        from invariantD(3)[OF inv this i(2)] at[of i] False show ?thesis by (simp add: v')
      qed
    qed (use le shrink invariantD(4)[OF inv] in \<open>simp_all add: v'\<close>)
    moreover have "\<forall>i. i < numElements v \<and> i < newElements \<longrightarrow>
              cell_at h1 (data v' + i) = cell_at h (data v + i)"
      using at by (simp add: v')
    ultimately show ?thesis using v' h' h1(2) shrink by (auto simp: same_meta_def)
  next
    case same
    with res have "v' = v\<lparr>numElements := newElements\<rparr>" "h' = h"
      by (simp_all add: resize_fill_def)
    with same inv show ?thesis by auto
  next
    case grow
    let ?n = "numElements v"
    from res grow obtain v1 h1 h2 where
      r: "(if newElements > numCapacity v then reserve v newElements h else Inr (v, h)) = Inr (v1, h1)"
      and f: "for_loop (numElements v1) newElements (\<lambda>i. construct (alloc v1) (data v1 + i) t) h1 = Inr h2"
      and v': "v' = v1\<lparr>numElements := newElements\<rparr>" and h': "h' = h2"
      by (auto simp: resize_fill_def ebind_eq_Inr)
    have s1: "invariant v1 h1 \<and> numElements v1 = ?n \<and> alloc v1 = alloc v \<and>
        newElements \<le> numCapacity v1 \<and> limit h1 = limit h \<and>
        (\<forall>i<?n. cell_at h1 (data v1 + i) = cell_at h (data v + i))"
    proof (cases "newElements > numCapacity v")
      case True
      with r have "reserve v newElements h = Inr (v1, h1)" by simp
      from reserve_invariant[OF inv this] True show ?thesis by (simp add: max_def)
    next
      case False
      with r have "v1 = v" "h1 = h" by simp_all
      with inv False show ?thesis by simp
    qed
    then have inv1: "invariant v1 h1" and n1: "numElements v1 = ?n"
      and c1: "newElements \<le> numCapacity v1" by simp_all
    have alloc: "\<forall>k. numElements v1 \<le> k \<and> k < newElements \<longrightarrow> cell_at h1 (data v1 + k) \<noteq> None"
      using invariant_mapped[OF inv1] c1 by simp
    from fill_loop_ok[OF alloc, of "alloc v1" t] f obtain
      m: "same_meta h1 h2"
      and c: "\<forall>r. cell_at h2 r =
         (if data v1 + numElements v1 \<le> r \<and> r < data v1 + newElements then Some (Live t)
          else cell_at h1 r)"
      by auto
    have at: "cell_at h2 (data v1 + i) =
        (if ?n \<le> i \<and> i < newElements then Some (Live t) else cell_at h1 (data v1 + i))" for i
      using c n1 by simp
    have "invariant v' h2"
    proof (rule invariantI)
      fix i assume "i < numElements v'"
      then have i: "i < newElements" by (simp add: v')
      show "\<exists>x. cell_at h2 (data v' + i) = Some (Live x)"
      proof (cases "i < ?n")
        case True
        with invariantD(2)[OF inv1, of i] n1 at[of i] show ?thesis by (simp add: v')
      next
        case False
        with at[of i] i show ?thesis by (simp add: v')
      qed
    next
      fix i assume "numElements v' \<le> i" "i < numCapacity v'"
      then have i: "newElements \<le> i" "i < numCapacity v1" by (simp_all add: v')
      with grow n1 have "numElements v1 \<le> i" by simp
      from invariantD(3)[OF inv1 this i(2)] at[of i] i
      show "cell_at h2 (data v' + i) = Some Raw" by (simp add: v')
    qed (use c1 invariantD(4)[OF inv1] in \<open>simp_all add: v'\<close>)
    moreover have "\<forall>i. i < ?n \<and> i < newElements \<longrightarrow>
              cell_at h2 (data v' + i) = cell_at h (data v + i)"
      using at s1 by (simp add: v')
    moreover have "\<forall>i. ?n \<le> i \<and> i < newElements \<longrightarrow> cell_at h2 (data v' + i) = Some (Live t)"
      using at by (simp add: v')
    ultimately show ?thesis using v' h' m s1 by (simp add: same_meta_def)
  qed
qed

lemma vector_sized_fill: "vector_sized dflt num a h = vector_fill num dflt a h"
  by (simp add: vector_sized_def vector_fill_def)

lemma invariant_empty: "invariant \<lparr>alloc = a, data = 0, numCapacity = 0, numElements = 0\<rparr> h"
  by (rule invariantI) simp_all

lemma vector_fill_invariant:
  assumes res: "vector_fill num t a h = Inr (v, h')" and nz: "0 < num \<or> zero_is_null a"
  shows "invariant v h' \<and> numElements v = num \<and> numCapacity v = num \<and> alloc v = a \<and>
         (\<forall>i<num. cell_at h' (data v + i) = Some (Live t))"
proof (cases "num = 0")
  case True
  with nz have "zero_is_null a" by simp
  with True res have "v = \<lparr>alloc = a, data = 0, numCapacity = 0, numElements = 0\<rparr>"
    by (auto simp: vector_fill_def allocate_def for_loop_int_def INT_MAX_def for_loop_done)
  with True invariant_empty show ?thesis by simp
next
  case False
  then have pos: "0 < num" by simp
  from res obtain d h1 where a: "allocate a num h = Inr (d, h1)"
    and f: "for_loop_int num (\<lambda>i. construct a (d + i) t) h1 = Inr h'"
    and v: "v = \<lparr>alloc = a, data = d, numCapacity = num, numElements = num\<rparr>"
    by (auto simp: vector_fill_def ebind_eq_Inr)
  from allocate_room[OF pos a] have room: "used h + num \<le> limit h" .
  from allocate_ok[OF pos room, of a] a have d: "d = Suc (used h)"
    and c1: "\<forall>r. cell_at h1 r = (if used h < r \<and> r \<le> used h + num then Some Raw else cell_at h r)"
    by auto
  from f have f': "for_loop 0 num (\<lambda>i. construct a (d + i) t) h1 = Inr h'"
    by (simp add: for_loop_int_def split: if_splits)
  have al: "\<forall>k. 0 \<le> k \<and> k < num \<longrightarrow> cell_at h1 (d + k) \<noteq> None"
    using c1 d by auto
  from fill_loop_ok[OF al, of a t] f'
  have c2: "\<forall>r. cell_at h' r = (if d + 0 \<le> r \<and> r < d + num then Some (Live t) else cell_at h1 r)"
    by auto
  have at: "cell_at h' (d + i) = Some (Live t)" if "i < num" for i
    using c2 that by simp
  have "invariant v h'"
    by (rule invariantI) (use at pos d in \<open>simp_all add: v\<close>)
  then show ?thesis using at v by simp
qed

lemma vector_fill_zero:
  assumes res: "vector_fill 0 t a h = Inr (v, h')" and nz: "\<not> zero_is_null a"
  shows "data v = Suc (used h) \<and> numCapacity v = 0 \<and> numElements v = 0 \<and> \<not> I2 v"
  using assms
  by (auto simp: vector_fill_def allocate_def ebind_eq_Inr I2_def split: if_splits)

lemma vector_init_list_invariant:
  assumes res: "vector_init_list l a h = Inr (v, h')" and nz: "l \<noteq> [] \<or> zero_is_null a"
  shows "invariant v h' \<and> numElements v = length l \<and> numCapacity v = length l \<and> alloc v = a \<and>
         (\<forall>i<length l. cell_at h' (data v + i) = Some (Live (l ! i)))"
proof (cases "l = []")
  case True
  with nz have "zero_is_null a" by simp
  with True res have "v = \<lparr>alloc = a, data = 0, numCapacity = 0, numElements = 0\<rparr>"
    by (auto simp: vector_init_list_def allocate_def)
  with True invariant_empty show ?thesis by simp
next
  case False
  then have pos: "0 < length l" by simp
  from res obtain d h1 where a: "allocate a (length l) h = Inr (d, h1)"
    and f: "construct_list a d l h1 = Inr h'"
    and v: "v = \<lparr>alloc = a, data = d, numCapacity = length l, numElements = length l\<rparr>"
    by (auto simp: vector_init_list_def ebind_eq_Inr)
  from allocate_room[OF pos a] have room: "used h + length l \<le> limit h" .
  from allocate_ok[OF pos room, of a] a have d: "d = Suc (used h)"
    and c1: "\<forall>r. cell_at h1 r =
       (if used h < r \<and> r \<le> used h + length l then Some Raw else cell_at h r)"
    by auto
  have al: "\<forall>k<length l. cell_at h1 (d + k) \<noteq> None"
    using c1 d by auto
  from construct_list_ok[OF al, of a] f
  have c2: "\<forall>r. cell_at h' r =
      (if d \<le> r \<and> r < d + length l then Some (Live (l ! (r - d))) else cell_at h1 r)"
    by auto
  have at: "cell_at h' (d + i) = Some (Live (l ! i))" if "i < length l" for i
    using c2 that by simp
  have "invariant v h'"
    by (rule invariantI) (use at pos d in \<open>simp_all add: v\<close>)
  then show ?thesis using at v by simp
qed

lemma vector_init_list_zero:
  assumes res: "vector_init_list [] a h = Inr (v, h')" and nz: "\<not> zero_is_null a"
  shows "data v = Suc (used h) \<and> numCapacity v = 0 \<and> numElements v = 0 \<and> \<not> I2 v"
  using assms
  by (auto simp: vector_init_list_def allocate_def ebind_eq_Inr I2_def split: if_splits)

lemma vector_move_invariant:
  assumes "invariant a h"
  shows "invariant (fst (vector_move a0 a)) h \<and> invariant (snd (vector_move a0 a)) h"
proof
  show "invariant (fst (vector_move a0 a)) h"
    by (rule invariantI)
      (use invariantD[OF assms] in \<open>simp_all add: vector_move_def\<close>)
  show "invariant (snd (vector_move a0 a)) h"
    by (rule invariantI) (simp_all add: vector_move_def)
qed

lemma swap_v_invariant:
  assumes "invariant v h" and "invariant rhs h"
  shows "invariant (fst (swap_v v rhs)) h \<and> invariant (snd (swap_v v rhs)) h"
proof
  show "invariant (fst (swap_v v rhs)) h"
    by (rule invariantI) (use invariantD[OF assms(2)] in \<open>simp_all add: swap_v_def\<close>)
  show "invariant (snd (swap_v v rhs)) h"
    by (rule invariantI) (use invariantD[OF assms(1)] in \<open>simp_all add: swap_v_def\<close>)
qed


lemma separateD:
  "separate v w \<Longrightarrow> i < numCapacity v \<Longrightarrow> j < numCapacity w \<Longrightarrow> data v + i \<noteq> data w + j"
  by (auto simp: separate_def)

lemma separate_outside:
  "separate v w \<Longrightarrow> j < numCapacity w \<Longrightarrow>
   \<not> (data v \<le> data w + j \<and> data w + j < data v + numCapacity v)"
  by (auto simp: separate_def)


lemma assign_move_invariant:
  assumes inv: "invariant v h" and invr: "invariant rhs h" and sep: "separate v rhs"
  shows "\<exists>v' rhs' h'. assign_move v rhs h = Inr (v', rhs', h') \<and>
           invariant v' h' \<and> invariant rhs' h' \<and>
           (\<forall>i<numElements rhs. cell_at h' (data v' + i) = cell_at h (data rhs + i))"
proof -
  from assign_move_ok[OF inv, of rhs] obtain v' rhs' h' where r:
    "assign_move v rhs h = Inr (v', rhs', h')"
    and v': "data v' = data rhs" "numElements v' = numElements rhs" "numCapacity v' = numCapacity rhs"
    and rhs': "data rhs' = 0" "size_v rhs' = 0" "capacity rhs' = 0"
    and c: "\<forall>r. cell_at h' r =
              (if data v \<le> r \<and> r < data v + numCapacity v then None else cell_at h r)"
    by blast
  have keep: "cell_at h' (data rhs + i) = cell_at h (data rhs + i)" if "i < numCapacity rhs" for i
    using c separate_outside[OF sep that] by auto
  have "invariant rhs h'" using invr keep by (rule invariant_cells_cong)
  then have "invariant v' h'"
    unfolding invariant_iff using v' by simp
  moreover have "invariant rhs' h'"
    by (rule invariantI) (use rhs' in \<open>simp_all add: size_v_def capacity_def\<close>)
  moreover have "\<forall>i<numElements rhs. cell_at h' (data v' + i) = cell_at h (data rhs + i)"
    using keep invariantD(1)[OF invr] v' by simp
  ultimately show ?thesis using r by blast
qed

lemma assign_copy_grow_invariant:
  assumes inv: "invariant v h" and invr: "invariant rhs h" and sep: "separate v rhs"
    and less: "numCapacity v < numElements rhs"
    and res: "assign_copy False v rhs h = Inr (v', h')"
  shows "invariant v' h' \<and> invariant rhs h' \<and> numElements v' = numElements rhs \<and>
         alloc v' = alloc v \<and>
         (\<forall>i<numElements rhs. cell_at h' (data v' + i) = cell_at h (data rhs + i)) \<and>
         separate v' rhs"
proof -
  let ?n = "numElements rhs"
  from less have pos: "0 < ?n" by simp
  note le = invariantD(1)[OF inv] and ler = invariantD(1)[OF invr]
  from res less obtain h1 h2 d h3 where
    l1: "for_loop 0 (numElements v) (\<lambda>i. destroy (alloc v) (data v + i)) h = Inr h1"
    and l2: "(if data v \<noteq> 0 then deallocate (alloc v) (data v) (numCapacity v) h1 else Inr h1) = Inr h2"
    and l3: "allocate (alloc v) ?n h2 = Inr (d, h3)"
    and l4: "for_loop 0 ?n (copy_from (alloc v) d (data rhs)) h3 = Inr h'"
    and v': "v' = v\<lparr>numCapacity := ?n, data := d, numElements := ?n\<rparr>"
    by (auto simp: assign_copy_def ebind_eq_Inr)
  have live: "\<forall>k. 0 \<le> k \<and> k < numElements v \<longrightarrow> (\<exists>x. cell_at h (data v + k) = Some (Live x))"
    using invariantD(2)[OF inv] by simp
  from destroy_loop_ok[OF live, of "alloc v"] l1 have m1: "same_meta h h1"
    and c1: "\<forall>r. cell_at h1 r =
       (if data v + 0 \<le> r \<and> r < data v + numElements v then Some Raw else cell_at h r)"
    by auto
  have "same_meta h h2 \<and> (\<forall>r. cell_at h2 r =
       (if data v \<le> r \<and> r < data v + numCapacity v then None else cell_at h r))"
    proof (cases "data v = 0")
      case True
      with invariantD(4)[OF inv] le have z: "numCapacity v = 0" "numElements v = 0" by simp_all
      from True l2 have "h2 = h1" by simp
      with m1 c1 z show ?thesis by auto
    next
      case False
      with l2 have dl: "deallocate (alloc v) (data v) (numCapacity v) h1 = Inr h2" by simp
      have "\<forall>i<numCapacity v. cell_at h1 (data v + i) \<noteq> None"
        using c1 invariant_mapped[OF inv] by simp
      from deallocate_ok[OF this, of "alloc v"] dl have "same_meta h1 h2"
        and c: "\<forall>r. cell_at h2 r =
          (if data v \<le> r \<and> r < data v + numCapacity v then None else cell_at h1 r)"
        by auto
      with m1 c1 le show ?thesis by (auto simp: same_meta_def)
    qed
  then have m2: "same_meta h h2"
    and c2: "\<forall>r. cell_at h2 r =
       (if data v \<le> r \<and> r < data v + numCapacity v then None else cell_at h r)"
    by simp_all
  from allocate_room[OF pos l3] have room: "used h2 + ?n \<le> limit h2" .
  from allocate_ok[OF pos room, of "alloc v"] l3 have d: "d = Suc (used h)"
    and c3: "\<forall>r. cell_at h3 r =
       (if used h2 < r \<and> r \<le> used h2 + ?n then Some Raw else cell_at h2 r)"
    using m2 by (auto simp: same_meta_def)
  have u2: "used h2 = used h" using m2 by (simp add: same_meta_def)
  have rhs3: "cell_at h3 (data rhs + i) = cell_at h (data rhs + i)" if "i < numCapacity rhs" for i
  proof -
    from invariant_in_range[OF invr that] have "data rhs + i \<le> used h" by simp
    then have "cell_at h3 (data rhs + i) = cell_at h2 (data rhs + i)" using c3 u2 by simp
    also have "\<dots> = cell_at h (data rhs + i)"
      using c2 separate_outside[OF sep that] by auto
    finally show ?thesis .
  qed
  have live3: "\<forall>k. 0 \<le> k \<and> k < ?n \<longrightarrow> (\<exists>x. cell_at h3 (data rhs + k) = Some (Live x))"
    using rhs3 ler invariantD(2)[OF invr] by simp
  have al3: "\<forall>k. 0 \<le> k \<and> k < ?n \<longrightarrow> cell_at h3 (d + k) \<noteq> None"
    using c3 d u2 by auto
  have disj: "\<forall>k j. 0 \<le> k \<and> k < ?n \<and> 0 \<le> j \<and> j < ?n \<longrightarrow> d + k \<noteq> data rhs + j"
  proof (intro allI impI)
    fix k j assume "0 \<le> k \<and> k < ?n \<and> 0 \<le> j \<and> j < ?n"
    then have "j < numCapacity rhs" using ler by simp
    from invariant_in_range[OF invr this] show "d + k \<noteq> data rhs + j" using d by simp
  qed
  from copy_loop_ok[OF live3 al3 disj, of "alloc v"] l4
  have c4: "\<forall>r. cell_at h' r =
       (if d + 0 \<le> r \<and> r < d + ?n then cell_at h3 (data rhs + (r - d)) else cell_at h3 r)"
    by auto
  have new: "cell_at h' (d + i) = cell_at h (data rhs + i)" if "i < ?n" for i
    using c4 that rhs3[of i] ler by simp
  have keep: "cell_at h' (data rhs + i) = cell_at h (data rhs + i)" if "i < numCapacity rhs" for i
  proof -
    from invariant_in_range[OF invr that] have "data rhs + i < d" using d by simp
    then have "cell_at h' (data rhs + i) = cell_at h3 (data rhs + i)" using c4 by simp
    with rhs3[OF that] show ?thesis by simp
  qed
  have iv: "invariant v' h'"
  proof (rule invariantI)
    fix i assume "i < numElements v'"
    then have i: "i < ?n" by (simp add: v')
    from new[OF i] invariantD(2)[OF invr i]
    show "\<exists>x. cell_at h' (data v' + i) = Some (Live x)" by (simp add: v')
  qed (use pos d in \<open>simp_all add: v'\<close>)
  have ir: "invariant rhs h'" using invr keep by (rule invariant_cells_cong)
  have sp: "separate v' rhs"
  proof (cases "numCapacity rhs = 0")
    case True
    then show ?thesis by (simp add: separate_def)
  next
    case False
    then have "numCapacity rhs - 1 < numCapacity rhs" by simp
    from invariant_in_range[OF invr this] False
    have "data rhs + numCapacity rhs \<le> d" using d by linarith
    then show ?thesis by (simp add: separate_def v')
  qed
  from iv ir sp new show ?thesis by (simp add: v')
qed

lemma assign_copy_fit_invariant:
  assumes inv: "invariant v h" and invr: "invariant rhs h" and sep: "separate v rhs"
    and fit: "numElements rhs \<le> numCapacity v"
    and res: "assign_copy False v rhs h = Inr (v', h')"
  shows "invariant v' h' \<and> invariant rhs h' \<and> numElements v' = numElements rhs \<and>
         alloc v' = alloc v \<and>
         (\<forall>i<numElements rhs. cell_at h' (data v' + i) = cell_at h (data rhs + i)) \<and>
         separate v' rhs"
proof -
  let ?n = "numElements rhs" and ?c = "numElements v"
  let ?m = "min ?n ?c"
  note le = invariantD(1)[OF inv] and ler = invariantD(1)[OF invr]
  from res fit obtain h1 where
    l1: "for_loop 0 ?m (assign_from (data v) (data rhs)) h = Inr h1"
    and l2: "(if ?n < ?c then for_loop ?n ?c (\<lambda>i. destroy (alloc v) (data v + i)) h1
              else if ?n > ?c then for_loop ?c ?n (copy_from (alloc v) (data v) (data rhs)) h1
              else Inr h1) = Inr h'"
    and v': "v' = v\<lparr>numElements := ?n\<rparr>"
    by (auto simp: assign_copy_def ebind_eq_Inr)
  have sd: "data v + i \<noteq> data rhs + j" if "i < numCapacity v" "j < numCapacity rhs" for i j
    using separateD[OF sep that] .
  have live: "\<forall>k. 0 \<le> k \<and> k < ?m \<longrightarrow> (\<exists>x. cell_at h (data rhs + k) = Some (Live x))"
    using invariantD(2)[OF invr] by simp
  have dlive: "\<forall>k. 0 \<le> k \<and> k < ?m \<longrightarrow> (\<exists>y. cell_at h (data v + k) = Some (Live y))"
    using invariantD(2)[OF inv] by simp
  have disj: "\<forall>k j. 0 \<le> k \<and> k < ?m \<and> 0 \<le> j \<and> j < ?m \<longrightarrow> data v + k \<noteq> data rhs + j"
    using sd le ler by simp
  from assign_loop_ok[OF live dlive disj] l1 have m1: "same_meta h h1"
    and c1: "\<forall>r. cell_at h1 r =
       (if data v + 0 \<le> r \<and> r < data v + ?m then cell_at h (data rhs + (r - data v))
        else cell_at h r)"
    by auto
  have v1: "cell_at h1 (data v + i) =
      (if i < ?m then cell_at h (data rhs + i) else cell_at h (data v + i))" for i
    using c1 by simp
  have r1: "cell_at h1 (data rhs + j) = cell_at h (data rhs + j)" if "j < numCapacity rhs" for j
  proof -
    have "\<not> (data v \<le> data rhs + j \<and> data rhs + j < data v + ?m)"
    proof
      assume a: "data v \<le> data rhs + j \<and> data rhs + j < data v + ?m"
      then have "data rhs + j - data v < numCapacity v" "data v + (data rhs + j - data v) = data rhs + j"
        using le by linarith+
      with sd[OF _ that] show False by metis
    qed
    with c1 show ?thesis by auto
  qed
  have fin: "(\<forall>i. i < numCapacity v \<longrightarrow> cell_at h' (data v + i) =
             (if i < ?n then cell_at h (data rhs + i) else Some Raw)) \<and>
         (\<forall>j<numCapacity rhs. cell_at h' (data rhs + j) = cell_at h (data rhs + j))"
  proof -
    consider (lt) "?n < ?c" | (gt) "?c < ?n" | (eq) "?n = ?c" by linarith
    then show ?thesis
    proof cases
      case lt
      with l2 have l: "for_loop ?n ?c (\<lambda>i. destroy (alloc v) (data v + i)) h1 = Inr h'" by simp
      have lv: "\<forall>k. ?n \<le> k \<and> k < ?c \<longrightarrow> (\<exists>x. cell_at h1 (data v + k) = Some (Live x))"
        using v1 lt invariantD(2)[OF inv] by simp
      from destroy_loop_ok[OF lv, of "alloc v"] l
      have c2: "\<forall>r. cell_at h' r =
          (if data v + ?n \<le> r \<and> r < data v + ?c then Some Raw else cell_at h1 r)"
        by auto
      have a: "cell_at h' (data v + i) = (if i < ?n then cell_at h (data rhs + i) else Some Raw)"
        if "i < numCapacity v" for i
      proof (cases "i < ?c")
        case True
        with c2 v1[of i] lt show ?thesis by auto
      next
        case False
        then have "?c \<le> i" by simp
        from invariantD(3)[OF inv this that] c2 v1[of i] False lt show ?thesis by auto
      qed
      have b: "cell_at h' (data rhs + j) = cell_at h (data rhs + j)" if "j < numCapacity rhs" for j
      proof -
        have "\<not> (data v + ?n \<le> data rhs + j \<and> data rhs + j < data v + ?c)"
        proof
          assume a: "data v + ?n \<le> data rhs + j \<and> data rhs + j < data v + ?c"
          then have "data rhs + j - data v < numCapacity v"
            "data v + (data rhs + j - data v) = data rhs + j"
            using le by linarith+
          with sd[OF _ that] show False by metis
        qed
        with c2 r1[OF that] show ?thesis by auto
      qed
      from a b show ?thesis by blast
    next
      case gt
      with l2 have l: "for_loop ?c ?n (copy_from (alloc v) (data v) (data rhs)) h1 = Inr h'" by simp
      have lv: "\<forall>k. ?c \<le> k \<and> k < ?n \<longrightarrow> (\<exists>x. cell_at h1 (data rhs + k) = Some (Live x))"
        using r1 ler invariantD(2)[OF invr] by simp
      have al: "\<forall>k. ?c \<le> k \<and> k < ?n \<longrightarrow> cell_at h1 (data v + k) \<noteq> None"
        using v1 gt fit invariant_mapped[OF inv] by simp
      have dj: "\<forall>k j. ?c \<le> k \<and> k < ?n \<and> ?c \<le> j \<and> j < ?n \<longrightarrow> data v + k \<noteq> data rhs + j"
        using sd fit ler by simp
      from copy_loop_ok[OF lv al dj, of "alloc v"] l
      have c2: "\<forall>r. cell_at h' r =
          (if data v + ?c \<le> r \<and> r < data v + ?n then cell_at h1 (data rhs + (r - data v))
           else cell_at h1 r)"
        by auto
      have a: "cell_at h' (data v + i) = (if i < ?n then cell_at h (data rhs + i) else Some Raw)"
        if "i < numCapacity v" for i
      proof -
        consider (old) "i < ?c" | (new) "?c \<le> i" "i < ?n" | (rest) "?n \<le> i" by linarith
        then show ?thesis
        proof cases
          case old
          with c2 v1[of i] gt show ?thesis by auto
        next
          case new
          with c2 have "cell_at h' (data v + i) = cell_at h1 (data rhs + i)" by simp
          with r1[of i] new ler show ?thesis by simp
        next
          case rest
          with gt have "?c \<le> i" by simp
          from invariantD(3)[OF inv this that] c2 v1[of i] rest gt show ?thesis by auto
        qed
      qed
      have b: "cell_at h' (data rhs + j) = cell_at h (data rhs + j)" if "j < numCapacity rhs" for j
      proof -
        have "\<not> (data v + ?c \<le> data rhs + j \<and> data rhs + j < data v + ?n)"
        proof
          assume a: "data v + ?c \<le> data rhs + j \<and> data rhs + j < data v + ?n"
          then have "data rhs + j - data v < numCapacity v"
            "data v + (data rhs + j - data v) = data rhs + j"
            using fit by linarith+
          with sd[OF _ that] show False by metis
        qed
        with c2 r1[OF that] show ?thesis by auto
      qed
      from a b show ?thesis by blast
    next
      case eq
      with l2 have h': "h' = h1" by simp
      have a: "cell_at h' (data v + i) = (if i < ?n then cell_at h (data rhs + i) else Some Raw)"
        if "i < numCapacity v" for i
      proof (cases "i < ?n")
        case True
        with v1[of i] eq h' show ?thesis by simp
      next
        case False
        with eq have "?c \<le> i" by simp
        from invariantD(3)[OF inv this that] v1[of i] False eq h' show ?thesis by simp
      qed
      from a r1 h' show ?thesis by simp
    qed
  qed
  then have a: "\<And>i. i < numCapacity v \<Longrightarrow> cell_at h' (data v + i) =
             (if i < ?n then cell_at h (data rhs + i) else Some Raw)"
    and b: "\<And>j. j < numCapacity rhs \<Longrightarrow> cell_at h' (data rhs + j) = cell_at h (data rhs + j)"
    by simp_all
  have iv: "invariant v' h'"
  proof (rule invariantI)
    fix i assume "i < numElements v'"
    then have i: "i < ?n" by (simp add: v')
    with fit have "i < numCapacity v" by simp
    from a[OF this] i invariantD(2)[OF invr i]
    show "\<exists>x. cell_at h' (data v' + i) = Some (Live x)" by (simp add: v')
  next
    fix i assume "numElements v' \<le> i" "i < numCapacity v'"
    then have i: "?n \<le> i" "i < numCapacity v" by (simp_all add: v')
    from a[OF i(2)] i(1) show "cell_at h' (data v' + i) = Some Raw" by (simp add: v')
  qed (use fit invariantD(4)[OF inv] in \<open>simp_all add: v'\<close>)
  have ir: "invariant rhs h'" using invr b by (rule invariant_cells_cong)
  have sp: "separate v' rhs" using sep by (simp add: separate_def v')
  have "\<forall>i<?n. cell_at h' (data v' + i) = cell_at h (data rhs + i)"
    using a fit by (simp add: v')
  with iv ir sp show ?thesis by (simp add: v')
qed

lemma assign_copy_invariant:
  assumes inv: "invariant v h" and invr: "invariant rhs h" and sep: "separate v rhs"
    and res: "assign_copy False v rhs h = Inr (v', h')"
  shows "invariant v' h' \<and> invariant rhs h' \<and> numElements v' = numElements rhs \<and>
         alloc v' = alloc v \<and>
         (\<forall>i<numElements rhs. cell_at h' (data v' + i) = cell_at h (data rhs + i)) \<and>
         separate v' rhs"
proof (cases "numCapacity v < numElements rhs")
  case True
  from assign_copy_grow_invariant[OF inv invr sep True res] show ?thesis .
next
  case False
  then have "numElements rhs \<le> numCapacity v" by simp
  from assign_copy_fit_invariant[OF inv invr sep this res] show ?thesis .
qed

lemma assign_copy_self: "assign_copy True v v h = Inr (v, h)"
  by (simp add: assign_copy_def)




subsection \<open>Where the buffer stays\<close>

lemma pop_back_data: "pop_back v h = Inr (v', h') \<Longrightarrow> data v' = data v"
  by (auto simp: pop_back_def ebind_eq_Inr split: if_splits)

lemma clear_data: "clear v h = Inr (v', h') \<Longrightarrow> data v' = data v"
  by (auto simp: clear_def ebind_eq_Inr)

lemma push_back_data:
  "numCapacity v \<noteq> numElements v \<Longrightarrow> push_back v t h = Inr (v', h') \<Longrightarrow> data v' = data v"
  by (auto simp: push_back_def ebind_eq_Inr)

lemma resize_fill_data:
  "newElements \<le> numCapacity v \<Longrightarrow> resize_fill v newElements t h = Inr (v', h') \<Longrightarrow>
   data v' = data v"
  by (auto simp: resize_fill_def ebind_eq_Inr split: if_splits)

lemma reserve_noop: "newCapacity \<le> numCapacity v \<Longrightarrow> reserve v newCapacity h = Inr (v, h)"
  by (simp add: reserve_def)

lemma shrink_to_fit_noop: "numCapacity v \<le> numElements v \<Longrightarrow> shrink_to_fit v h = Inr (v, h)"
  by (simp add: shrink_to_fit_def)

lemma assign_copy_data:
  "numElements rhs \<le> numCapacity v \<Longrightarrow> assign_copy same v rhs h = Inr (v', h') \<Longrightarrow>
   data v' = data v"
  by (auto simp: assign_copy_def ebind_eq_Inr split: if_splits)

lemma push_back_via_reserve:
  "numCapacity v = numElements v \<Longrightarrow> push_back v t h = Inr (v', h') \<Longrightarrow>
   \<exists>v1 h1. reserve v (grown (numCapacity v)) h = Inr (v1, h1) \<and> data v' = data v1"
  unfolding push_back_def grown_def[symmetric]
  by (auto simp: ebind_eq_Inr)

lemma resize_fill_via_reserve:
  "numElements v < newElements \<Longrightarrow> numCapacity v < newElements \<Longrightarrow>
   resize_fill v newElements t h = Inr (v', h') \<Longrightarrow>
   \<exists>v1 h1. reserve v newElements h = Inr (v1, h1) \<and> data v' = data v1"
  by (auto simp: resize_fill_def ebind_eq_Inr split: if_splits)

lemmas ex_eval = the_vector_def the_heap_def ex_vec_def ex_full_def ex_other_def ex_heap_def ex_alloc_def
  allocate_def deallocate_def construct_def destroy_def load_def store_def relocate_def
  copy_from_def assign_from_def cell_at_def for_loop_step for_loop_done list_all_iff

lemma ex_shrink_eval:
  "the_vector (shrink_to_fit ex_vec ex_heap) =
     Some \<lparr>alloc = ex_alloc, data = 4, numCapacity = 1, numElements = 1\<rparr>"
  "map_option n_alloc (the_heap (shrink_to_fit ex_vec ex_heap)) = Some 3"
  by (simp_all add: shrink_to_fit_def ex_eval)

lemma ex_shrink_empty_eval:
  "the_vector (ebind (pop_back ex_vec ex_heap) (\<lambda>(v, h). shrink_to_fit v h)) =
     Some \<lparr>alloc = ex_alloc, data = 0, numCapacity = 0, numElements = 0\<rparr>"
  "map_option n_alloc (the_heap (ebind (pop_back ex_vec ex_heap) (\<lambda>(v, h). shrink_to_fit v h))) =
     Some 2"
  by (simp_all add: shrink_to_fit_def pop_back_def ex_eval)

lemma ex_assign_move_eval:
  "map_sum id (\<lambda>r. data (fst r)) (assign_move ex_vec ex_full ex_heap) = Inr 3"
  by (simp add: assign_move_def clear_def shrink_to_fit_def swap_v_def ex_eval)

lemma ex_frame_eval:
  "the_vector (pop_back ex_vec ex_heap) = Some (ex_vec\<lparr>numElements := 0\<rparr>)"
  "the_vector (clear ex_vec ex_heap) = Some (ex_vec\<lparr>numElements := 0\<rparr>)"
  "the_vector (push_back ex_vec 6 ex_heap) = Some (ex_vec\<lparr>numElements := 2\<rparr>)"
  "the_vector (resize_fill ex_vec 2 0 ex_heap) = Some (ex_vec\<lparr>numElements := 2\<rparr>)"
  "the_vector (assign_copy False ex_vec ex_other ex_heap) = Some ex_vec"
  "the_vector (push_back ex_full 6 ex_heap) =
     Some \<lparr>alloc = ex_alloc, data = 4, numCapacity = 2, numElements = 2\<rparr>"
  "the_vector (resize_fill ex_full 3 0 ex_heap) =
     Some \<lparr>alloc = ex_alloc, data = 4, numCapacity = 3, numElements = 3\<rparr>"
  by (simp_all add: pop_back_def clear_def push_back_def resize_fill_def assign_copy_def
      reserve_def ex_eval)

section \<open>The claims\<close>

text \<open>
  C1. \<^verbatim>\<open>push_back\<close> (either overload) grows the buffer exactly when the count equals the
  capacity, to capacity 1 from capacity 0 and to twice the capacity otherwise, then
  constructs the new element at position count and adds one to the count. A sequence of
  \<open>n\<close> calls on an empty vector of capacity zero obtains at most \<open>\<lceil>log\<^sub>2 n\<rceil> + 1\<close> regions
  (exactly that many for \<open>n > 0\<close>), and it runs to its end when the heap has room for
  \<open>4 n\<close> elements.
\<close>

theorem push_back_growth:
  "(invariant v h \<and> numCapacity v \<noteq> numElements v \<longrightarrow>
      (\<exists>h'. push_back v t h = Inr (v\<lparr>numElements := numElements v + 1\<rparr>, h') \<and>
            n_alloc h' = n_alloc h \<and>
            cell_at h' (data v + numElements v) = Some (Live t) \<and>
            (\<forall>i<numElements v. cell_at h' (data v + i) = cell_at h (data v + i)))) \<and>
   (invariant v h \<and> numCapacity v = numElements v \<and>
    used h + (if numCapacity v = 0 then 1 else 2 * numCapacity v) \<le> limit h \<longrightarrow>
      (\<exists>v' h'. push_back v t h = Inr (v', h') \<and>
            numCapacity v' = (if numCapacity v = 0 then 1 else 2 * numCapacity v) \<and>
            numElements v' = numElements v + 1 \<and>
            n_alloc h' = n_alloc h + 1 \<and>
            cell_at h' (data v' + numElements v) = Some (Live t) \<and>
            (\<forall>i<numElements v. cell_at h' (data v' + i) = cell_at h (data v + i)))) \<and>
   push_back_move v t h = push_back v t h \<and>
   (case push_all (vector_default a) xs h of
      Inl e \<Rightarrow> True
    | Inr (w, k) \<Rightarrow>
        numElements w = length xs \<and>
        n_alloc k \<le> n_alloc h + (ceillog2 (length xs) + 1) \<and>
        n_alloc k = n_alloc h + reallocs (length xs) \<and>
        numCapacity w = cap_after (length xs)) \<and>
   (used h + 4 * length xs \<le> limit h \<longrightarrow>
      (\<exists>w k. push_all (vector_default a) xs h = Inr (w, k)))"
proof (intro conjI impI)
  assume a: "invariant v h \<and> numCapacity v \<noteq> numElements v"
  then have inv: "invariant v h" and ne: "numCapacity v \<noteq> numElements v" by simp_all
  from push_back_nogrow[OF inv ne, of t] obtain h' where h':
    "push_back v t h = Inr (v\<lparr>numElements := numElements v + 1\<rparr>, h')" "same_meta h h'"
    "\<forall>r. cell_at h' r = (if r = data v + numElements v then Some (Live t) else cell_at h r)"
    by blast
  then show "\<exists>h'. push_back v t h = Inr (v\<lparr>numElements := numElements v + 1\<rparr>, h') \<and>
            n_alloc h' = n_alloc h \<and>
            cell_at h' (data v + numElements v) = Some (Live t) \<and>
            (\<forall>i<numElements v. cell_at h' (data v + i) = cell_at h (data v + i))"
    by (auto simp: same_meta_def)
next
  assume a: "invariant v h \<and> numCapacity v = numElements v \<and>
    used h + (if numCapacity v = 0 then 1 else 2 * numCapacity v) \<le> limit h"
  then have inv: "invariant v h" and eq: "numCapacity v = numElements v" by simp_all
  have room: "used h + grown (numCapacity v) \<le> limit h"
    using a by (cases "numCapacity v = 0") (simp_all add: grown_def)
  from push_back_total[OF inv, of t] room obtain v' h' where r: "push_back v t h = Inr (v', h')"
    by blast
  note q = push_back_result[OF inv r]
  have c: "numCapacity v' = (if numCapacity v = 0 then 1 else 2 * numCapacity v)"
    using q eq by (simp add: grown_def)
  have n: "numElements v' = numElements v + 1" "n_alloc h' = n_alloc h + 1"
    using q eq by simp_all
  have l: "cell_at h' (data v' + numElements v) = Some (Live t)"
    "\<forall>i<numElements v. cell_at h' (data v' + i) = cell_at h (data v + i)"
    using q by blast+
  from r c n l
  show "\<exists>v' h'. push_back v t h = Inr (v', h') \<and>
            numCapacity v' = (if numCapacity v = 0 then 1 else 2 * numCapacity v) \<and>
            numElements v' = numElements v + 1 \<and>
            n_alloc h' = n_alloc h + 1 \<and>
            cell_at h' (data v' + numElements v) = Some (Live t) \<and>
            (\<forall>i<numElements v. cell_at h' (data v' + i) = cell_at h (data v + i))"
    by blast
next
  show "push_back_move v t h = push_back v t h"
    by (simp add: push_back_move_def push_back_def)
next
  show "case push_all (vector_default a) xs h of
      Inl e \<Rightarrow> True
    | Inr (w, k) \<Rightarrow>
        numElements w = length xs \<and>
        n_alloc k \<le> n_alloc h + (ceillog2 (length xs) + 1) \<and>
        n_alloc k = n_alloc h + reallocs (length xs) \<and>
        numCapacity w = cap_after (length xs)"
  proof (cases "push_all (vector_default a) xs h")
    case (Inl e)
    then show ?thesis by simp
  next
    case (Inr p)
    obtain w k where p: "p = (w, k)" by (cases p)
    from push_all_state[of a xs h w k] Inr p reallocs_le[of "length xs"]
    show ?thesis by simp
  qed
next
  assume "used h + 4 * length xs \<le> limit h"
  then show "\<exists>w k. push_all (vector_default a) xs h = Inr (w, k)"
    by (rule push_all_total)
qed

theorem push_back_growth_witness:
  "(invariant ex_vec ex_heap \<and> numCapacity ex_vec \<noteq> numElements ex_vec \<and>
    (\<exists>h'. push_back ex_vec 6 ex_heap = Inr (ex_vec\<lparr>numElements := numElements ex_vec + 1\<rparr>, h') \<and>
          n_alloc h' = n_alloc ex_heap)) \<and>
   (invariant ex_full ex_heap \<and> numCapacity ex_full = numElements ex_full \<and>
    used ex_heap + (if numCapacity ex_full = 0 then 1 else 2 * numCapacity ex_full) \<le> limit ex_heap \<and>
    (\<exists>v' h'. push_back ex_full 6 ex_heap = Inr (v', h') \<and>
          numCapacity v' = 2 \<and> n_alloc h' = n_alloc ex_heap + 1)) \<and>
   (used (heap_init 12 :: int heap) + 4 * length [1, 2, 3 :: int] \<le> limit (heap_init 12 :: int heap) \<and>
    (\<exists>w k. push_all (vector_default ex_alloc) [1, 2, 3 :: int] (heap_init 12) = Inr (w, k)))"
proof -
  have a: "numCapacity ex_vec \<noteq> numElements ex_vec" by (simp add: ex_vec_def)
  have b: "numCapacity ex_full = numElements ex_full" "numCapacity ex_full = 1"
    by (simp_all add: ex_full_def)
  have c: "used ex_heap + (if numCapacity ex_full = 0 then 1 else 2 * numCapacity ex_full) \<le> limit ex_heap"
    by (simp add: ex_full_def ex_heap_def)
  have d: "used (heap_init 12 :: int heap) + 4 * length [1, 2, 3 :: int] \<le> limit (heap_init 12 :: int heap)"
    by (simp add: heap_init_def)
  from push_back_growth[where v = ex_vec and h = ex_heap and t = 6] ex_vec_invariant a
  have 1: "\<exists>h'. push_back ex_vec 6 ex_heap = Inr (ex_vec\<lparr>numElements := numElements ex_vec + 1\<rparr>, h') \<and>
          n_alloc h' = n_alloc ex_heap" by blast
  from push_back_growth[where v = ex_full and h = ex_heap and t = 6] ex_full_invariant b(1) c
  have "\<exists>v' h'. push_back ex_full 6 ex_heap = Inr (v', h') \<and>
          numCapacity v' = (if numCapacity ex_full = 0 then 1 else 2 * numCapacity ex_full) \<and>
          n_alloc h' = n_alloc ex_heap + 1" by blast
  then have 2: "\<exists>v' h'. push_back ex_full 6 ex_heap = Inr (v', h') \<and>
          numCapacity v' = 2 \<and> n_alloc h' = n_alloc ex_heap + 1" using b(2) by simp
  from push_back_growth[where h = "heap_init 12 :: int heap" and a = ex_alloc and xs = "[1, 2, 3]"] d
  have 3: "\<exists>w k. push_all (vector_default ex_alloc) [1, 2, 3 :: int] (heap_init 12) = Inr (w, k)"
    by blast
  from ex_vec_invariant ex_full_invariant a b(1) c d 1 2 3 show ?thesis by blast
qed

text \<open>
  C2, at the input where it fails: with an allocator that answers a request for zero
  elements with an address that is not null, the sized, the fill and the initializer-list
  constructor at \<open>n = 0\<close> leave a buffer that is not null with capacity 0, so \<open>I2\<close> and
  with it the invariant are broken. With an allocator that answers null the same call
  gives the empty state, and so does the copy constructor on an empty source, which tests
  for it. For every other operation the invariant is kept (see above).
\<close>

theorem vector_sized_zero_breaks_I2:
  "the_vector (vector_sized (0::int) 0 ex_alloc (heap_init 8)) =
     Some \<lparr>alloc = ex_alloc, data = 1, numCapacity = 0, numElements = 0\<rparr> \<and>
   the_vector (vector_fill 0 (7::int) ex_alloc (heap_init 8)) =
     Some \<lparr>alloc = ex_alloc, data = 1, numCapacity = 0, numElements = 0\<rparr> \<and>
   the_vector (vector_init_list ([]::int list) ex_alloc (heap_init 8)) =
     Some \<lparr>alloc = ex_alloc, data = 1, numCapacity = 0, numElements = 0\<rparr> \<and>
   \<not> I2 \<lparr>alloc = ex_alloc, data = 1, numCapacity = 0, numElements = 0\<rparr> \<and>
   \<not> invariant \<lparr>alloc = ex_alloc, data = 1, numCapacity = 0, numElements = 0\<rparr>
        (heap_init 8 :: int heap) \<and>
   the_vector (vector_sized (0::int) 0 \<lparr>arena = 0, zero_is_null = True\<rparr> (heap_init 8)) =
     Some \<lparr>alloc = \<lparr>arena = 0, zero_is_null = True\<rparr>, data = 0, numCapacity = 0,
           numElements = 0\<rparr> \<and>
   the_vector (vector_copy ex_alloc (vector_default ex_alloc) (heap_init 8 :: int heap)) =
     Some \<lparr>alloc = ex_alloc, data = 0, numCapacity = 0, numElements = 0\<rparr>"
  by (simp add: vector_sized_def vector_fill_def vector_init_list_def the_vector_def allocate_def
      ex_alloc_def heap_init_def for_loop_int_def INT_MAX_def for_loop_done I2_def invariant_def
      vector_copy_def vector_default_def empty_v_def)

text \<open>
  C3. On a stack constructed empty, \<^verbatim>\<open>push(1), push(2), push(3)\<close> give size 3 and top 3;
  one \<^verbatim>\<open>pop()\<close> gives size 2 and top 2; two more give an empty stack. This holds for
  the calls as written, which take the overload \<^verbatim>\<open>push(T&&)\<close>, and for the same calls
  on named values, which take \<^verbatim>\<open>push(const T&)\<close>. Every stack operation is the
  operation of the backing vector: \<^verbatim>\<open>push_back\<close> (the overload of the same value
  category), \<^verbatim>\<open>pop_back\<close>, \<^verbatim>\<open>back\<close>, \<^verbatim>\<open>size\<close>, \<^verbatim>\<open>empty\<close>. The heap needs room
  for the three buffers of capacity 1, 2 and 4.
\<close>

theorem stack_scenario_result:
  "(used h0 + 7 \<le> limit h0 \<longrightarrow>
      stack_scenario a0 h0 = Inr ((3, 3), (2, 2), True) \<and>
      stack_scenario_copy a0 h0 = Inr ((3, 3), (2, 2), True)) \<and>
   (case stack_push s t h of
      Inl e \<Rightarrow> push_back (container s) t h = Inl e
    | Inr (s', h') \<Rightarrow> push_back (container s) t h = Inr (container s', h')) \<and>
   (case stack_push_move s t h of
      Inl e \<Rightarrow> push_back_move (container s) t h = Inl e
    | Inr (s', h') \<Rightarrow> push_back_move (container s) t h = Inr (container s', h')) \<and>
   (case stack_pop s h of
      Inl e \<Rightarrow> pop_back (container s) h = Inl e
    | Inr (s', h') \<Rightarrow> pop_back (container s) h = Inr (container s', h')) \<and>
   stack_top s h = back_v (container s) h \<and>
   stack_size s = size_v (container s) \<and>
   stack_empty s = empty_v (container s)"
proof (intro conjI impI)
  assume "used h0 + 7 \<le> limit h0"
  then show "stack_scenario a0 h0 = Inr ((3, 3), (2, 2), True)"
    by (rule stack_scenario_run)
next
  assume "used h0 + 7 \<le> limit h0"
  then show "stack_scenario_copy a0 h0 = Inr ((3, 3), (2, 2), True)"
    by (rule stack_scenario_copy_run)
next
  show "case stack_push s t h of
      Inl e \<Rightarrow> push_back (container s) t h = Inl e
    | Inr (s', h') \<Rightarrow> push_back (container s) t h = Inr (container s', h')"
    by (cases "push_back (container s) t h") (auto simp: stack_push_def)
next
  show "case stack_push_move s t h of
      Inl e \<Rightarrow> push_back_move (container s) t h = Inl e
    | Inr (s', h') \<Rightarrow> push_back_move (container s) t h = Inr (container s', h')"
    by (cases "push_back_move (container s) t h") (auto simp: stack_push_move_def)
next
  show "case stack_pop s h of
      Inl e \<Rightarrow> pop_back (container s) h = Inl e
    | Inr (s', h') \<Rightarrow> pop_back (container s) h = Inr (container s', h')"
    by (cases "pop_back (container s) h") (auto simp: stack_pop_def)
qed (simp_all add: stack_top_def stack_size_def stack_empty_def)

theorem stack_scenario_witness:
  "used (heap_init 7 :: int heap) + 7 \<le> limit (heap_init 7 :: int heap) \<and>
   stack_scenario ex_alloc (heap_init 7) = Inr ((3, 3), (2, 2), True) \<and>
   stack_scenario_copy ex_alloc (heap_init 7) = Inr ((3, 3), (2, 2), True)"
proof -
  have "used (heap_init 7 :: int heap) + 7 \<le> limit (heap_init 7 :: int heap)"
    by (simp add: heap_init_def)
  with stack_scenario_result[where ?h0.0 = "heap_init 7" and ?a0.0 = ex_alloc, THEN conjunct1]
  show ?thesis by simp
qed

text \<open>
  C4. Move construction hands the buffer, the count and the capacity of the source to the
  new vector as they are, touches no element (the heap is not even an argument), and
  leaves the source with size 0, capacity 0 and a null buffer.
\<close>

theorem vector_move_spec:
  "data (fst (vector_move a0 a)) = data a \<and>
   numElements (fst (vector_move a0 a)) = numElements a \<and>
   numCapacity (fst (vector_move a0 a)) = numCapacity a \<and>
   subscript (fst (vector_move a0 a)) i h = subscript a i h \<and>
   size_v (snd (vector_move a0 a)) = 0 \<and>
   capacity (snd (vector_move a0 a)) = 0 \<and>
   data (snd (vector_move a0 a)) = 0"
  by (simp add: vector_move_def subscript_def size_v_def capacity_def)

text \<open>
  C5, as stated: \<^verbatim>\<open>reserve\<close> is the only place where the buffer changes.
  \<^verbatim>\<open>shrink_to_fit\<close> on a vector with slack obtains a region itself and moves the element
  from address 1 to address 4; on a vector with capacity and no element it sets the buffer
  to null and obtains no region; move assignment takes over the buffer of its source.
\<close>

theorem sole_reallocation_counterexample:
  "the_vector (shrink_to_fit ex_vec ex_heap) =
     Some \<lparr>alloc = ex_alloc, data = 4, numCapacity = 1, numElements = 1\<rparr> \<and>
   data ex_vec = 1 \<and>
   map_option n_alloc (the_heap (shrink_to_fit ex_vec ex_heap)) = Some 3 \<and>
   n_alloc ex_heap = 2 \<and>
   the_vector (ebind (pop_back ex_vec ex_heap) (\<lambda>(v, h). shrink_to_fit v h)) =
     Some \<lparr>alloc = ex_alloc, data = 0, numCapacity = 0, numElements = 0\<rparr> \<and>
   map_option n_alloc (the_heap (ebind (pop_back ex_vec ex_heap) (\<lambda>(v, h). shrink_to_fit v h))) =
     Some 2 \<and>
   map_sum id (\<lambda>r. data (fst r)) (assign_move ex_vec ex_full ex_heap) = Inr 3"
  using ex_shrink_eval ex_shrink_empty_eval ex_assign_move_eval
  by (simp add: ex_vec_def ex_heap_def)

text \<open>
  C5, amended: the buffer address is left as it is by \<^verbatim>\<open>pop_back\<close> and \<^verbatim>\<open>clear\<close>, by
  \<^verbatim>\<open>push_back\<close> when the count is below the capacity, by \<^verbatim>\<open>resize\<close> when the new count
  is within the capacity, by \<^verbatim>\<open>reserve\<close> when the new capacity is within the capacity,
  by \<^verbatim>\<open>shrink_to_fit\<close> when there is no slack and by copy assignment when the source's
  count is within the capacity; \<^verbatim>\<open>push_back\<close> on a full vector and \<^verbatim>\<open>resize\<close> past the
  capacity take their new buffer from \<^verbatim>\<open>reserve\<close>.
\<close>

theorem buffer_frame:
  "(the_vector (pop_back v h) = Some v' \<longrightarrow> data v' = data v) \<and>
   (the_vector (clear v h) = Some v' \<longrightarrow> data v' = data v) \<and>
   (numCapacity v \<noteq> numElements v \<and> the_vector (push_back v t h) = Some v' \<longrightarrow>
      data v' = data v) \<and>
   (newElements \<le> numCapacity v \<and> the_vector (resize_fill v newElements t h) = Some v' \<longrightarrow>
      data v' = data v) \<and>
   (newCapacity \<le> numCapacity v \<longrightarrow> reserve v newCapacity h = Inr (v, h)) \<and>
   (numCapacity v \<le> numElements v \<longrightarrow> shrink_to_fit v h = Inr (v, h)) \<and>
   (numElements rhs \<le> numCapacity v \<and> the_vector (assign_copy same v rhs h) = Some v' \<longrightarrow>
      data v' = data v) \<and>
   (numCapacity v = numElements v \<and> the_vector (push_back v t h) = Some v' \<longrightarrow>
      (\<exists>v1. the_vector (reserve v (grown (numCapacity v)) h) = Some v1 \<and> data v' = data v1)) \<and>
   (numElements v < newElements \<and> numCapacity v < newElements \<and>
    the_vector (resize_fill v newElements t h) = Some v' \<longrightarrow>
      (\<exists>v1. the_vector (reserve v newElements h) = Some v1 \<and> data v' = data v1))"
proof (intro conjI impI)
  assume "the_vector (pop_back v h) = Some v'"
  then show "data v' = data v" by (auto simp: the_vector_Some dest: pop_back_data)
next
  assume "the_vector (clear v h) = Some v'"
  then show "data v' = data v" by (auto simp: the_vector_Some dest: clear_data)
next
  assume "numCapacity v \<noteq> numElements v \<and> the_vector (push_back v t h) = Some v'"
  then show "data v' = data v" by (auto simp: the_vector_Some dest: push_back_data)
next
  assume "newElements \<le> numCapacity v \<and> the_vector (resize_fill v newElements t h) = Some v'"
  then show "data v' = data v" by (auto simp: the_vector_Some dest: resize_fill_data)
next
  assume "newCapacity \<le> numCapacity v"
  then show "reserve v newCapacity h = Inr (v, h)" by (rule reserve_noop)
next
  assume "numCapacity v \<le> numElements v"
  then show "shrink_to_fit v h = Inr (v, h)" by (rule shrink_to_fit_noop)
next
  assume "numElements rhs \<le> numCapacity v \<and> the_vector (assign_copy same v rhs h) = Some v'"
  then show "data v' = data v" by (auto simp: the_vector_Some dest: assign_copy_data)
next
  assume a: "numCapacity v = numElements v \<and> the_vector (push_back v t h) = Some v'"
  then obtain h' where "push_back v t h = Inr (v', h')" by (auto simp: the_vector_Some)
  from push_back_via_reserve[OF _ this] a
  show "\<exists>v1. the_vector (reserve v (grown (numCapacity v)) h) = Some v1 \<and> data v' = data v1"
    by (auto simp: the_vector_Some)
next
  assume a: "numElements v < newElements \<and> numCapacity v < newElements \<and>
    the_vector (resize_fill v newElements t h) = Some v'"
  then obtain h' where "resize_fill v newElements t h = Inr (v', h')"
    by (auto simp: the_vector_Some)
  from resize_fill_via_reserve[OF _ _ this] a
  show "\<exists>v1. the_vector (reserve v newElements h) = Some v1 \<and> data v' = data v1"
    by (auto simp: the_vector_Some)
qed

theorem buffer_frame_witness:
  "the_vector (pop_back ex_vec ex_heap) = Some (ex_vec\<lparr>numElements := 0\<rparr>) \<and>
   the_vector (clear ex_vec ex_heap) = Some (ex_vec\<lparr>numElements := 0\<rparr>) \<and>
   data (ex_vec\<lparr>numElements := 0\<rparr>) = data ex_vec \<and>
   numCapacity ex_vec \<noteq> numElements ex_vec \<and>
   the_vector (push_back ex_vec 6 ex_heap) = Some (ex_vec\<lparr>numElements := 2\<rparr>) \<and>
   2 \<le> numCapacity ex_vec \<and>
   the_vector (resize_fill ex_vec 2 0 ex_heap) = Some (ex_vec\<lparr>numElements := 2\<rparr>) \<and>
   data (ex_vec\<lparr>numElements := 2\<rparr>) = data ex_vec \<and>
   reserve ex_vec 2 ex_heap = Inr (ex_vec, ex_heap) \<and>
   numCapacity ex_full \<le> numElements ex_full \<and>
   shrink_to_fit ex_full ex_heap = Inr (ex_full, ex_heap) \<and>
   numElements ex_other \<le> numCapacity ex_vec \<and>
   the_vector (assign_copy False ex_vec ex_other ex_heap) = Some ex_vec \<and>
   numCapacity ex_full = numElements ex_full \<and>
   the_vector (push_back ex_full 6 ex_heap) =
     Some \<lparr>alloc = ex_alloc, data = 4, numCapacity = 2, numElements = 2\<rparr> \<and>
   (\<exists>v1. the_vector (reserve ex_full (grown (numCapacity ex_full)) ex_heap) = Some v1 \<and> data v1 = 4) \<and>
   numElements ex_full < 3 \<and> numCapacity ex_full < 3 \<and>
   the_vector (resize_fill ex_full 3 0 ex_heap) =
     Some \<lparr>alloc = ex_alloc, data = 4, numCapacity = 3, numElements = 3\<rparr> \<and>
   (\<exists>v1. the_vector (reserve ex_full 3 ex_heap) = Some v1 \<and> data v1 = 4)"
proof -
  have c: "numCapacity ex_vec \<noteq> numElements ex_vec" "2 \<le> numCapacity ex_vec"
    "numCapacity ex_full \<le> numElements ex_full" "numElements ex_other \<le> numCapacity ex_vec"
    "numCapacity ex_full = numElements ex_full" "numElements ex_full < 3" "numCapacity ex_full < 3"
    by (simp_all add: ex_vec_def ex_full_def ex_other_def)
  note e = ex_frame_eval
  from buffer_frame[where v = ex_vec and h = ex_heap and v' = "ex_vec\<lparr>numElements := 0\<rparr>"] e(1)
  have 1: "data (ex_vec\<lparr>numElements := 0\<rparr>) = data ex_vec" by blast
  from buffer_frame[where v = ex_vec and h = ex_heap and t = 6
      and v' = "ex_vec\<lparr>numElements := 2\<rparr>"] c(1) e(3)
  have 2: "data (ex_vec\<lparr>numElements := 2\<rparr>) = data ex_vec" by blast
  from buffer_frame[where v = ex_vec and h = ex_heap and newCapacity = 2] c(2)
  have 3: "reserve ex_vec 2 ex_heap = Inr (ex_vec, ex_heap)" by blast
  from buffer_frame[where v = ex_full and h = ex_heap] c(3)
  have 4: "shrink_to_fit ex_full ex_heap = Inr (ex_full, ex_heap)" by blast
  from buffer_frame[where v = ex_full and h = ex_heap and t = 6
      and v' = "\<lparr>alloc = ex_alloc, data = 4, numCapacity = 2, numElements = 2\<rparr>"] c(5) e(6)
  have 5: "\<exists>v1. the_vector (reserve ex_full (grown (numCapacity ex_full)) ex_heap) = Some v1 \<and> data v1 = 4"
    by auto
  from buffer_frame[where v = ex_full and h = ex_heap and t = 0 and newElements = 3
      and v' = "\<lparr>alloc = ex_alloc, data = 4, numCapacity = 3, numElements = 3\<rparr>"] c(6,7) e(7)
  have 6: "\<exists>v1. the_vector (reserve ex_full 3 ex_heap) = Some v1 \<and> data v1 = 4"
    by auto
  from c e 1 2 3 4 5 6 show ?thesis by blast
qed

text \<open>
  C6, as stated: the copy holds the allocator state of its source. The copy constructor
  gives a vector holding the default-constructed allocator, and copy assignment leaves
  the receiver's allocator as it was, also when the source holds another one.
\<close>

theorem copy_allocator_counterexample:
  "the_vector (vector_copy ex_alloc ex_other ex_heap) =
     Some \<lparr>alloc = ex_alloc, data = 4, numCapacity = 1, numElements = 1\<rparr> \<and>
   the_vector (assign_copy False ex_vec ex_other ex_heap) =
     Some \<lparr>alloc = ex_alloc, data = 1, numCapacity = 2, numElements = 1\<rparr> \<and>
   alloc ex_other \<noteq> ex_alloc"
  using ex_copy_eval ex_assign_eval by (simp add: ex_other_def ex_alloc_def)

text \<open>
  C6, amended: the allocator is not propagated through copy. A copy-constructed vector
  holds the default-constructed allocator \<^verbatim>\<open>A()\<close>, and the receiver of a copy assignment
  keeps the allocator it had.
\<close>

theorem copy_keeps_no_allocator:
  "(the_vector (vector_copy a0 rhs h) = Some b \<longrightarrow> alloc b = a0) \<and>
   (the_vector (assign_copy same v rhs h) = Some v' \<longrightarrow> alloc v' = alloc v)"
  using vector_copy_alloc assign_copy_alloc unfolding the_vector_Some by blast

theorem copy_keeps_no_allocator_witness:
  "the_vector (vector_copy ex_alloc ex_other ex_heap) =
     Some \<lparr>alloc = ex_alloc, data = 4, numCapacity = 1, numElements = 1\<rparr> \<and>
   alloc \<lparr>alloc = ex_alloc, data = 4, numCapacity = 1, numElements = 1\<rparr> = ex_alloc \<and>
   the_vector (assign_copy False ex_vec ex_other ex_heap) =
     Some \<lparr>alloc = ex_alloc, data = 1, numCapacity = 2, numElements = 1\<rparr> \<and>
   alloc \<lparr>alloc = ex_alloc, data = 1, numCapacity = 2, numElements = 1\<rparr> = alloc ex_vec"
  using copy_keeps_no_allocator[where ?a0.0 = ex_alloc and rhs = ex_other and h = ex_heap
      and b = "\<lparr>alloc = ex_alloc, data = 4, numCapacity = 1, numElements = 1\<rparr>"
      and same = False and v = ex_vec
      and v' = "\<lparr>alloc = ex_alloc, data = 1, numCapacity = 2, numElements = 1\<rparr>"]
    ex_copy_eval ex_assign_eval
  by blast




text \<open>
  C8. Move assignment (clear, shrink to the empty state, exchange with the source) and the
  spec's wording (release the receiver's resources, adopt the source's, leave the source
  empty) have the same observable outcome for every receiver whose buffer is null exactly
  when its capacity is zero; for a receiver that satisfies the invariant the outcome is
  there: the receiver holds the source's buffer, count and capacity (and allocator), the
  source is empty, and the receiver's old buffer is released.
\<close>

theorem assign_move_refinement:
  "(I2 v \<longrightarrow> observe_move (assign_move v rhs h) = observe_move (assign_move_spec v rhs h)) \<and>
   (invariant v h \<longrightarrow>
      (\<exists>v' rhs' h'. assign_move v rhs h = Inr (v', rhs', h') \<and>
         data v' = data rhs \<and> size_v v' = size_v rhs \<and> capacity v' = capacity rhs \<and>
         alloc v' = alloc rhs \<and>
         data rhs' = 0 \<and> size_v rhs' = 0 \<and> capacity rhs' = 0 \<and> alloc rhs' = alloc v \<and>
         (\<forall>r. cell_at h' r =
            (if data v \<le> r \<and> r < data v + numCapacity v then None else cell_at h r))))"
proof (intro conjI impI)
  assume "I2 v"
  then show "observe_move (assign_move v rhs h) = observe_move (assign_move_spec v rhs h)"
    by (rule assign_move_refines)
next
  assume "invariant v h"
  from assign_move_ok[OF this, of rhs]
  show "\<exists>v' rhs' h'. assign_move v rhs h = Inr (v', rhs', h') \<and>
         data v' = data rhs \<and> size_v v' = size_v rhs \<and> capacity v' = capacity rhs \<and>
         alloc v' = alloc rhs \<and>
         data rhs' = 0 \<and> size_v rhs' = 0 \<and> capacity rhs' = 0 \<and> alloc rhs' = alloc v \<and>
         (\<forall>r. cell_at h' r =
            (if data v \<le> r \<and> r < data v + numCapacity v then None else cell_at h r))"
    by (auto simp: size_v_def capacity_def)
qed

theorem assign_move_refinement_witness:
  "I2 ex_vec \<and> invariant ex_vec ex_heap \<and>
   observe_move (assign_move ex_vec ex_full ex_heap) =
     observe_move (assign_move_spec ex_vec ex_full ex_heap) \<and>
   (\<exists>v' rhs' h'. assign_move ex_vec ex_full ex_heap = Inr (v', rhs', h') \<and>
      data v' = data ex_full \<and> size_v rhs' = 0 \<and> capacity rhs' = 0)"
proof -
  have i: "I2 ex_vec" using ex_vec_invariant by (simp add: invariant_def)
  from assign_move_refinement[where v = ex_vec and rhs = ex_full and h = ex_heap]
    i ex_vec_invariant
  show ?thesis by blast
qed

text \<open>
  C9. \<^verbatim>\<open>pop_back\<close> on a vector that is not empty, whose last element is a live object,
  destroys the element at index count - 1 and takes one off the count; the elements
  before it, the capacity and the buffer stay as they are. On an empty vector it is not
  an error and changes nothing.
\<close>

theorem pop_back_spec:
  "(numElements v \<noteq> 0 \<and> cell_at h (data v + numElements v - 1) = Some (Live x) \<longrightarrow>
      (\<exists>h'. pop_back v h = Inr (v\<lparr>numElements := numElements v - 1\<rparr>, h') \<and>
            cell_at h' (data v + numElements v - 1) = Some Raw \<and>
            (\<forall>r. r \<noteq> data v + numElements v - 1 \<longrightarrow> cell_at h' r = cell_at h r) \<and>
            (\<forall>i<numElements v - 1.
               subscript (v\<lparr>numElements := numElements v - 1\<rparr>) i h' = subscript v i h) \<and>
            same_meta h h')) \<and>
   (numElements v = 0 \<longrightarrow> pop_back v h = Inr (v, h))"
proof (intro conjI impI)
  assume a: "numElements v \<noteq> 0 \<and> cell_at h (data v + numElements v - 1) = Some (Live x)"
  then have "cell_at h (data v + numElements v - 1) = Some (Live x)" by simp
  from destroy_ok[OF this, of "alloc v"] obtain h' where h':
    "destroy (alloc v) (data v + numElements v - 1) h = Inr h'" "same_meta h h'"
    "\<forall>r. cell_at h' r = (if r = data v + numElements v - 1 then Some Raw else cell_at h r)"
    by blast
  have "pop_back v h = Inr (v\<lparr>numElements := numElements v - 1\<rparr>, h')"
    using a h'(1) by (simp add: pop_back_def)
  moreover have "\<forall>i<numElements v - 1.
      subscript (v\<lparr>numElements := numElements v - 1\<rparr>) i h' = subscript v i h"
    using h'(3) by (auto simp: subscript_def load_def)
  ultimately show "\<exists>h'. pop_back v h = Inr (v\<lparr>numElements := numElements v - 1\<rparr>, h') \<and>
            cell_at h' (data v + numElements v - 1) = Some Raw \<and>
            (\<forall>r. r \<noteq> data v + numElements v - 1 \<longrightarrow> cell_at h' r = cell_at h r) \<and>
            (\<forall>i<numElements v - 1.
               subscript (v\<lparr>numElements := numElements v - 1\<rparr>) i h' = subscript v i h) \<and>
            same_meta h h'"
    using h' by auto
next
  assume "numElements v = 0"
  then show "pop_back v h = Inr (v, h)" by (simp add: pop_back_def)
qed

theorem pop_back_spec_witness:
  "(numElements ex_vec \<noteq> 0 \<and>
    cell_at ex_heap (data ex_vec + numElements ex_vec - 1) = Some (Live 5) \<and>
    (\<exists>h'. pop_back ex_vec ex_heap = Inr (ex_vec\<lparr>numElements := numElements ex_vec - 1\<rparr>, h') \<and>
          cell_at h' (data ex_vec + numElements ex_vec - 1) = Some Raw)) \<and>
   (numElements (vector_default ex_alloc) = 0 \<and>
    pop_back (vector_default ex_alloc) ex_heap = Inr (vector_default ex_alloc, ex_heap))"
proof -
  have a: "numElements ex_vec \<noteq> 0"
    "cell_at ex_heap (data ex_vec + numElements ex_vec - 1) = Some (Live 5)"
    by (simp_all add: ex_vec_def ex_heap_def cell_at_def)
  have b: "numElements (vector_default ex_alloc) = 0" by (simp add: vector_default_def)
  from pop_back_spec[where v = ex_vec and h = ex_heap and x = 5] a
  have 1: "\<exists>h'. pop_back ex_vec ex_heap = Inr (ex_vec\<lparr>numElements := numElements ex_vec - 1\<rparr>, h') \<and>
          cell_at h' (data ex_vec + numElements ex_vec - 1) = Some Raw" by blast
  from pop_back_spec[where v = "vector_default ex_alloc" and h = ex_heap] b
  have 2: "pop_back (vector_default ex_alloc) ex_heap = Inr (vector_default ex_alloc, ex_heap)"
    by blast
  from a b 1 2 show ?thesis by blast
qed

text \<open>
  C10. \<^verbatim>\<open>begin() == end()\<close> holds exactly for the empty vectors; so it does for the
  default-constructed vector, whose buffer is null, and for any vector with count 0,
  whatever its capacity.
\<close>

theorem begin_end_empty:
  "(it_eq (begin_it v) (end_it v) \<longleftrightarrow> empty_v v) \<and>
   (it_neq (begin_it v) (end_it v) \<longleftrightarrow> \<not> empty_v v) \<and>
   it_eq (begin_it (vector_default a)) (end_it (vector_default a)) \<and>
   it_eq (begin_it (v\<lparr>numElements := 0\<rparr>)) (end_it (v\<lparr>numElements := 0\<rparr>))"
  by (simp add: it_eq_def it_neq_def begin_it_def end_it_def empty_v_def vector_default_def)

end
